theory Spec2Isabelle
  imports Main "HOL-Library.Word" "HOL-Library.AList" "HOL-Library.Sublist"
begin

section \<open>Strings\<close>

text \<open>
  A JavaScript string is a sequence of UTF-16 code units; \<open>length\<close>, \<open>slice\<close> and the
  regular expressions of \<open>example-main.ts\<close> (none has the \<open>u\<close> flag) all count and
  compare code units. String literals of the source are ASCII and are written
  \<open>utf16 ''...''\<close>.
\<close>

type_synonym code_unit = "16 word"
type_synonym jsstring = "code_unit list"

definition utf16 :: "string \<Rightarrow> jsstring" where
  "utf16 s = map (\<lambda>c. of_nat (of_char c)) s"

subsection \<open>Character classes of the source's regular expressions\<close>

definition is_digit :: "code_unit \<Rightarrow> bool" where
  \<comment> \<open>\<open>\d\<close>, that is \<open>[0-9]\<close>\<close>
  "is_digit c = (0x30 \<le> c \<and> c \<le> 0x39)"

definition is_upper :: "code_unit \<Rightarrow> bool" where
  "is_upper c = (0x41 \<le> c \<and> c \<le> 0x5A)"

definition is_lower :: "code_unit \<Rightarrow> bool" where
  "is_lower c = (0x61 \<le> c \<and> c \<le> 0x7A)"

definition is_alpha :: "code_unit \<Rightarrow> bool" where
  \<comment> \<open>\<open>[A-Za-z]\<close>\<close>
  "is_alpha c = (is_upper c \<or> is_lower c)"

definition is_word :: "code_unit \<Rightarrow> bool" where
  \<comment> \<open>\<open>\w\<close>, that is \<open>[A-Za-z0-9_]\<close>\<close>
  "is_word c = (is_alpha c \<or> is_digit c \<or> c = 0x5F)"

definition is_local :: "code_unit \<Rightarrow> bool" where
  \<comment> \<open>\<open>[A-Za-z0-9._%+-]\<close>\<close>
  "is_local c = (is_alpha c \<or> is_digit c \<or> c = 0x2E \<or> c = 0x5F \<or> c = 0x25 \<or> c = 0x2B \<or> c = 0x2D)"

definition is_domain :: "code_unit \<Rightarrow> bool" where
  \<comment> \<open>\<open>[A-Za-z0-9.-]\<close>\<close>
  "is_domain c = (is_alpha c \<or> is_digit c \<or> c = 0x2E \<or> c = 0x2D)"

definition is_sep :: "code_unit \<Rightarrow> bool" where
  \<comment> \<open>\<open>[ .-]\<close>\<close>
  "is_sep c = (c = 0x20 \<or> c = 0x2E \<or> c = 0x2D)"

section \<open>Regular expressions\<close>

text \<open>
  The fragment of ECMAScript patterns that the source uses: classes of one code unit,
  sequence, alternation (left alternative first), greedy bounded repetition, the word
  boundary \<open>\b\<close>, and the one-unit negative lookbehind and lookahead
  \<open>(?<![...])\<close>, \<open>(?![...])\<close>.
\<close>

datatype re =
    Cls "code_unit \<Rightarrow> bool"
  | Seq re re
  | Alt re re
  | Rep nat "nat option" re
  | WordB
  | NotBehind "code_unit \<Rightarrow> bool"
  | NotAhead "code_unit \<Rightarrow> bool"
  | Eps

text \<open>A cursor is a position in the input: the code unit to its left, if any, and the
  input to its right.\<close>

type_synonym cursor = "code_unit option \<times> jsstring"

primrec re_size :: "re \<Rightarrow> nat" where
  "re_size (Cls P) = 0"
| "re_size (Seq a b) = Suc (re_size a + re_size b)"
| "re_size (Alt a b) = Suc (re_size a + re_size b)"
| "re_size (Rep mn mx r) = Suc (re_size r)"
| "re_size WordB = 0"
| "re_size (NotBehind P) = 0"
| "re_size (NotAhead P) = 0"
| "re_size Eps = 0"

definition word_before :: "cursor \<Rightarrow> bool" where
  "word_before x = (case fst x of None \<Rightarrow> False | Some c \<Rightarrow> is_word c)"

definition word_after :: "cursor \<Rightarrow> bool" where
  "word_after x = (case snd x of [] \<Rightarrow> False | c # _ \<Rightarrow> is_word c)"

text \<open>
  The backtracking matcher, as the list of the cursors where a match started at \<open>x\<close> can
  end, in the order in which backtracking tries them: the match that
  \<open>RegExpBuiltinExec\<close> reports is the first one. \<open>Rep\<close> follows the specification's
  \<open>RepeatMatcher\<close>: greedy, and an iteration that consumes nothing is refused once the
  minimum is reached.
\<close>

function (sequential) matcher :: "re \<Rightarrow> cursor \<Rightarrow> cursor list" where
  "matcher (Cls P) (p, []) = []"
| "matcher (Cls P) (p, c # cs) = (if P c then [(Some c, cs)] else [])"
| "matcher (Seq a b) x = concat (map (matcher b) (matcher a x))"
| "matcher (Alt a b) x = matcher a x @ matcher b x"
| "matcher (Rep mn mx r) x =
     (if mx = Some 0 then [x]
      else concat (map (\<lambda>y. if mn = 0 \<and> length (snd x) \<le> length (snd y) then []
                              else matcher (Rep (mn - 1) (map_option (\<lambda>k. k - 1) mx) r) y)
                       (matcher r x))
           @ (if mn = 0 then [x] else []))"
| "matcher WordB x = (if word_before x \<noteq> word_after x then [x] else [])"
| "matcher (NotBehind P) x = (case fst x of None \<Rightarrow> [x] | Some c \<Rightarrow> if P c then [] else [x])"
| "matcher (NotAhead P) x = (case snd x of [] \<Rightarrow> [x] | c # _ \<Rightarrow> if P c then [] else [x])"
| "matcher Eps x = [x]"
  by pat_completeness auto
termination
  by (relation "measures [\<lambda>(r, x). re_size r,
                          \<lambda>(r, x). (case r of Rep mn mx r' \<Rightarrow> mn | _ \<Rightarrow> 0),
                          \<lambda>(r, x). length (snd x)]") auto


definition exec_at :: "re \<Rightarrow> cursor \<Rightarrow> nat option" where
  \<comment> \<open>the number of code units of the match that starts at the cursor, if there is one\<close>
  "exec_at r x = (case matcher r x of [] \<Rightarrow> None | y # _ \<Rightarrow> Some (length (snd x) - length (snd y)))"

text \<open>
  A global (\<open>g\<close>) search from a cursor to the end of the input: at each index the
  matcher is tried; on failure the index advances by one, on success the search goes on
  from the end of the match (one further after an empty match). The result keeps the
  unmatched code units between the matches, which \<open>replace\<close> copies.
\<close>

datatype piece = Lit code_unit | Match jsstring

fun pieces :: "re \<Rightarrow> code_unit option \<Rightarrow> jsstring \<Rightarrow> piece list" where
  "pieces r p [] = (case exec_at r (p, []) of None \<Rightarrow> [] | Some n \<Rightarrow> [Match []])"
| "pieces r p (c # cs) =
     (case exec_at r (p, c # cs) of
        None \<Rightarrow> Lit c # pieces r (Some c) cs
      | Some 0 \<Rightarrow> Match [] # Lit c # pieces r (Some c) cs
      | Some (Suc k) \<Rightarrow> Match (c # take k cs) # pieces r (Some (last (c # take k cs))) (drop k cs))"

fun matched :: "piece list \<Rightarrow> jsstring list" where
  "matched [] = []"
| "matched (Lit c # ps) = matched ps"
| "matched (Match s # ps) = s # matched ps"

fun substitute :: "(jsstring \<Rightarrow> jsstring) \<Rightarrow> piece list \<Rightarrow> jsstring" where
  "substitute f [] = []"
| "substitute f (Lit c # ps) = c # substitute f ps"
| "substitute f (Match s # ps) = f s @ substitute f ps"

fun literal_units :: "piece list \<Rightarrow> jsstring" where
  \<comment> \<open>the code units outside the matches\<close>
  "literal_units [] = []"
| "literal_units (Lit c # ps) = c # literal_units ps"
| "literal_units (Match s # ps) = literal_units ps"

text \<open>Regular expression objects carry the mutable \<open>lastIndex\<close>.\<close>

record regexp =
  source :: re
  lastIndex :: nat

definition new_RegExp :: "regexp \<Rightarrow> regexp" where
  \<comment> \<open>\<open>new RegExp(r, "g")\<close>: a fresh object with the pattern of \<open>r\<close>\<close>
  "new_RegExp r = \<lparr>source = source r, lastIndex = 0\<rparr>"

definition cursor_at :: "jsstring \<Rightarrow> nat \<Rightarrow> cursor" where
  "cursor_at text i = ((if i = 0 then None else Some (text ! (i - 1))), drop i text)"

definition matchAll :: "jsstring \<Rightarrow> regexp \<Rightarrow> jsstring list" where
  \<comment> \<open>\<open>Array.from(text.matchAll(re)).map((m) => m[0])\<close>: the iterator works on a clone of
      \<open>re\<close> that starts at \<open>re.lastIndex\<close>\<close>
  "matchAll text re =
     (if length text < lastIndex re then []
      else matched (pieces (source re) (fst (cursor_at text (lastIndex re)))
                                       (snd (cursor_at text (lastIndex re)))))"

definition replace :: "jsstring \<Rightarrow> re \<Rightarrow> (jsstring \<Rightarrow> jsstring) \<Rightarrow> jsstring" where
  \<comment> \<open>\<open>text.replace(re, f)\<close> for a global \<open>re\<close>: the search starts at index 0 whatever
      \<open>re.lastIndex\<close> was\<close>
  "replace text r f = substitute f (pieces r None text)"

section \<open>The patterns of the source\<close>

fun seq :: "re list \<Rightarrow> re" where
  "seq [] = Eps"
| "seq [r] = r"
| "seq (r # rs) = Seq r (seq rs)"

fun lit :: "jsstring \<Rightarrow> re list" where
  "lit [] = []"
| "lit (c # cs) = Cls (\<lambda>d. d = c) # lit cs"

definition digits :: "nat \<Rightarrow> re" where
  \<comment> \<open>\<open>\d{n}\<close>\<close>
  "digits n = Rep n (Some n) (Cls is_digit)"

definition opt :: "re \<Rightarrow> re" where
  \<comment> \<open>\<open>r?\<close>\<close>
  "opt r = Rep 0 (Some 1) r"

datatype label = SSN | EMAIL | PHONE_NUMBER

definition SSN_RE :: re where
  \<comment> \<open>\<open>/\b\d{3}-\d{2}-\d{4}\b/g\<close>\<close>
  "SSN_RE = seq ([WordB, digits 3] @ lit (utf16 ''-'') @ [digits 2] @ lit (utf16 ''-'') @ [digits 4, WordB])"

definition EMAIL_RE :: re where
  \<comment> \<open>\<open>/\b[A-Za-z0-9._%+-]+@[A-Za-z0-9.-]+\.[A-Za-z]{2,}\b/g\<close>\<close>
  "EMAIL_RE = seq ([WordB, Rep 1 None (Cls is_local)] @ lit (utf16 ''@'')
                   @ [Rep 1 None (Cls is_domain)] @ lit (utf16 ''.'')
                   @ [Rep 2 None (Cls is_alpha), WordB])"

definition PHONE_NUMBER_RE :: re where
  \<comment> \<open>\<open>/(?<!\w)(?:\+\d{1,3}[ .-]?)?(?:\(\d{3}\)|\d{3})[ .-]?\d{3}[ .-]?\d{4}(?!\w)/g\<close>\<close>
  "PHONE_NUMBER_RE =
     seq [NotBehind is_word,
          opt (seq (lit (utf16 ''+'') @ [Rep 1 (Some 3) (Cls is_digit), opt (Cls is_sep)])),
          Alt (seq (lit (utf16 ''('') @ [digits 3] @ lit (utf16 '')''))) (digits 3),
          opt (Cls is_sep), digits 3, opt (Cls is_sep), digits 4,
          NotAhead is_word]"

definition PLACEHOLDER_RE :: re where
  \<comment> \<open>\<open>/\b(?:SSN_\d{4}|EMAIL_\d{4}|PHONE_NUMBER_\d{4})\b/g\<close>\<close>
  "PLACEHOLDER_RE =
     seq [WordB,
          Alt (seq (lit (utf16 ''SSN_'') @ [digits 4]))
              (Alt (seq (lit (utf16 ''EMAIL_'') @ [digits 4]))
                   (seq (lit (utf16 ''PHONE_NUMBER_'') @ [digits 4]))),
          WordB]"

definition MAX_PH_LEN :: nat where
  "MAX_PH_LEN = 17"

definition pattern_of :: "label \<Rightarrow> re" where
  "pattern_of l = (case l of SSN \<Rightarrow> SSN_RE | EMAIL \<Rightarrow> EMAIL_RE | PHONE_NUMBER \<Rightarrow> PHONE_NUMBER_RE)"

definition PII_PATTERNS :: "label \<Rightarrow> regexp" where
  \<comment> \<open>the shared objects as the module creates them\<close>
  "PII_PATTERNS l = \<lparr>source = pattern_of l, lastIndex = 0\<rparr>"

definition keys_PII_PATTERNS :: "label list" where
  \<comment> \<open>\<open>Object.keys(PII_PATTERNS)\<close>: insertion order\<close>
  "keys_PII_PATTERNS = [SSN, EMAIL, PHONE_NUMBER]"

definition label_name :: "label \<Rightarrow> jsstring" where
  "label_name l = (case l of SSN \<Rightarrow> utf16 ''SSN'' | EMAIL \<Rightarrow> utf16 ''EMAIL''
                   | PHONE_NUMBER \<Rightarrow> utf16 ''PHONE_NUMBER'')"

section \<open>Redaction\<close>

fun toString :: "nat \<Rightarrow> jsstring" where
  \<comment> \<open>\<open>n.toString()\<close> of a non-negative integer: decimal, no leading zero\<close>
  "toString n = (if n < 10 then [0x30 + of_nat n] else toString (n div 10) @ [0x30 + of_nat (n mod 10)])"

definition padStart :: "jsstring \<Rightarrow> nat \<Rightarrow> code_unit \<Rightarrow> jsstring" where
  \<comment> \<open>\<open>s.padStart(k, c)\<close> for a filler of one code unit\<close>
  "padStart s k c = replicate (k - length s) c @ s"

definition pad4 :: "nat \<Rightarrow> jsstring" where
  "pad4 n = padStart (toString n) 4 0x30"

type_synonym mapping = "(jsstring \<times> jsstring) list"

text \<open>\<open>s.split(sep)\<close> and \<open>parts.join(p)\<close>; an empty separator splits between all
  code units.\<close>

fun split_at :: "jsstring \<Rightarrow> jsstring \<Rightarrow> jsstring \<Rightarrow> jsstring list" where
  "split_at sep cur [] = [cur]"
| "split_at sep cur (c # cs) =
     (if prefix sep (c # cs) then cur # split_at sep [] (drop (length sep - 1) cs)
      else split_at sep (cur @ [c]) cs)"

definition split_str :: "jsstring \<Rightarrow> jsstring \<Rightarrow> jsstring list" where
  "split_str s sep = (if sep = [] then map (\<lambda>c. [c]) s else split_at sep [] s)"

fun join_str :: "jsstring list \<Rightarrow> jsstring \<Rightarrow> jsstring" where
  "join_str [] p = []"
| "join_str [x] p = x"
| "join_str (x # xs) p = x @ p @ join_str xs p"

record redact_state =
  modified :: jsstring
  mapping :: mapping
  counters :: "label \<Rightarrow> nat"

definition redact_match :: "label \<Rightarrow> redact_state \<Rightarrow> jsstring \<Rightarrow> redact_state" where
  \<comment> \<open>the body of the inner loop\<close>
  "redact_match l st match =
     (if match \<in> set (map snd (mapping st)) then st
      else let placeholder = label_name l @ utf16 ''_'' @ pad4 (counters st l)
           in \<lparr>modified = join_str (split_str (modified st) match) placeholder,
               mapping = AList.update placeholder match (mapping st),
               counters = (counters st)(l := counters st l + 1)\<rparr>)"

definition redact_label :: "(label \<Rightarrow> regexp) \<Rightarrow> redact_state \<Rightarrow> label \<Rightarrow> redact_state" where
  \<comment> \<open>the body of the outer loop\<close>
  "redact_label pats st l =
     (let re = new_RegExp (pats l);
          matches = matchAll (modified st) re
      in foldl (redact_match l) st matches)"

definition redact_run :: "(label \<Rightarrow> regexp) \<Rightarrow> jsstring \<Rightarrow> redact_state" where
  "redact_run pats text =
     foldl (redact_label pats) \<lparr>modified = text, mapping = [], counters = (\<lambda>l. 1)\<rparr> keys_PII_PATTERNS"

record redaction =
  redactedText :: jsstring
  mapping_of :: mapping

definition redactText :: "(label \<Rightarrow> regexp) \<Rightarrow> jsstring \<Rightarrow> redaction" where
  \<comment> \<open>the first argument is the state of the shared objects \<open>PII_PATTERNS\<close> at the call\<close>
  "redactText pats text =
     (let st = redact_run pats text in \<lparr>redactedText = modified st, mapping_of = mapping st\<rparr>)"

section \<open>Restoration\<close>

definition unredactOnce :: "jsstring \<Rightarrow> mapping \<Rightarrow> jsstring" where
  "unredactOnce text mp =
     replace text PLACEHOLDER_RE (\<lambda>m. case map_of mp m of None \<Rightarrow> m | Some v \<Rightarrow> v)"

definition TAIL :: nat where
  "TAIL = MAX_PH_LEN - 1"

definition stream_call :: "mapping \<Rightarrow> jsstring \<Rightarrow> jsstring \<Rightarrow> jsstring \<times> jsstring" where
  \<comment> \<open>one call of the closure that \<open>makeStreamUnredactor(mapping)\<close> returns: from the
      buffer before the call and the incoming fragment to the returned text and the
      buffer after the call\<close>
  "stream_call mp buf incoming =
     (let buf1 = buf @ incoming;
          buf2 = replace buf1 PLACEHOLDER_RE (\<lambda>m. case map_of mp m of None \<Rightarrow> m | Some v \<Rightarrow> v)
      in if TAIL < length buf2
         then (let emitLen = length buf2 - TAIL in (take emitLen buf2, drop emitLen buf2))
         else ([], buf2))"

fun stream_calls :: "mapping \<Rightarrow> jsstring \<Rightarrow> jsstring list \<Rightarrow> jsstring list \<times> jsstring" where
  \<comment> \<open>successive calls of one session: the texts returned, and the buffer at the end\<close>
  "stream_calls mp buf [] = ([], buf)"
| "stream_calls mp buf (f # fs) =
     (let (out, buf') = stream_call mp buf f;
          (outs, buf'') = stream_calls mp buf' fs
      in (out # outs, buf''))"

definition makeStreamUnredactor :: "mapping \<Rightarrow> jsstring list \<Rightarrow> jsstring list" where
  \<comment> \<open>a fresh session (\<open>buf = ""\<close>) and what its successive calls return\<close>
  "makeStreamUnredactor mp fragments = fst (stream_calls mp [] fragments)"

section \<open>The placeholder grammar\<close>

text \<open>
  The grammar \<open>LABEL_####\<close> of the placeholder tokens, stated on its own: a label of
  the catalog, an underscore, four decimal digits.
\<close>

definition placeholder_grammar :: "jsstring \<Rightarrow> bool" where
  "placeholder_grammar t =
     list_ex (\<lambda>l. length t = length (label_name l) + 5
                  \<and> take (length (label_name l) + 1) t = label_name l @ utf16 ''_''
                  \<and> list_all is_digit (drop (length (label_name l) + 1) t))
             keys_PII_PATTERNS"

definition token_at :: "label \<Rightarrow> jsstring \<Rightarrow> bool" where
  \<comment> \<open>the input starts with a token of label \<open>l\<close> that no word character follows\<close>
  "token_at l s =
     (let n = length (label_name l) + 1
      in prefix (label_name l @ utf16 ''_'') s \<and> n + 4 \<le> length s
         \<and> list_all is_digit (take 4 (drop n s))
         \<and> \<not> word_after (None, drop (n + 4) s))"

fun contains_placeholder :: "jsstring \<Rightarrow> bool" where
  \<comment> \<open>some substring of the text is in the grammar\<close>
  "contains_placeholder [] = False"
| "contains_placeholder (c # cs) =
     (list_ex (\<lambda>l. placeholder_grammar (take (length (label_name l) + 5) (c # cs))) keys_PII_PATTERNS
      \<or> contains_placeholder cs)"

section \<open>Auxiliary definitions\<close>

text \<open>The placeholder that the inner loop of \<open>redactText\<close> builds for a label and a
  counter.\<close>

definition placeholder_of :: "label \<Rightarrow> nat \<Rightarrow> jsstring" where
  "placeholder_of l n = label_name l @ utf16 ''_'' @ pad4 n"

text \<open>The shape that \<open>SSN_RE\<close> accepts at the start of an input, and an input made of
  ten thousand different values of that shape, \<open>000-00-dddd\<close> for every four digits
  \<open>dddd\<close>, each followed by a space.\<close>

definition ssn_at :: "jsstring \<Rightarrow> bool" where
  "ssn_at s =
     (3 \<le> length s \<and> list_all is_digit (take 3 s) \<and> prefix (utf16 ''-'') (drop 3 s)
      \<and> 6 \<le> length s \<and> list_all is_digit (take 2 (drop 4 s)) \<and> prefix (utf16 ''-'') (drop 6 s)
      \<and> 11 \<le> length s \<and> list_all is_digit (take 4 (drop 7 s))
      \<and> \<not> word_after (None, drop 11 s))"

definition ssn_value :: "jsstring \<Rightarrow> jsstring" where
  "ssn_value ds = utf16 ''000-00-'' @ ds"

definition ssn_block :: "jsstring \<Rightarrow> jsstring" where
  "ssn_block ds = ssn_value ds @ utf16 '' ''"

definition many_ssns :: jsstring where
  "many_ssns = concat (map ssn_block (List.n_lists 4 (utf16 ''0123456789'')))"

text \<open>
  What \<open>s.split(v).join(p)\<close> computes for a separator that is not empty: the leftmost
  occurrences of \<open>v\<close>, none overlapping another, are replaced by \<open>p\<close>.
\<close>

fun replace_all :: "jsstring \<Rightarrow> jsstring \<Rightarrow> jsstring \<Rightarrow> jsstring" where
  "replace_all v p [] = []"
| "replace_all v p (c # cs) =
     (if prefix v (c # cs) then p @ replace_all v p (drop (length v - 1) cs)
      else c # replace_all v p cs)"

text \<open>
  The occurrences of \<open>v\<close> that this replacement rewrites each stand between non-word
  code units (or the ends of the text), and none is directly followed by another. The
  second argument is the code unit to the left of the text.
\<close>

fun delimited :: "jsstring \<Rightarrow> code_unit option \<Rightarrow> jsstring \<Rightarrow> bool" where
  "delimited v q [] = True"
| "delimited v q (c # cs) =
     (if prefix v (c # cs)
      then \<not> word_before (q, []) \<and> \<not> word_after (None, drop (length v - 1) cs)
           \<and> \<not> prefix v (drop (length v - 1) cs)
           \<and> delimited v (Some (last v)) (drop (length v - 1) cs)
      else delimited v (Some c) cs)"

text \<open>A lower bound on the number of code units a pattern consumes.\<close>

primrec min_len :: "re \<Rightarrow> nat" where
  "min_len (Cls P) = 1"
| "min_len (Seq a b) = min_len a + min_len b"
| "min_len (Alt a b) = min (min_len a) (min_len b)"
| "min_len (Rep mn mx r) = (case mx of None \<Rightarrow> mn | Some k \<Rightarrow> min mn k) * min_len r"
| "min_len WordB = 0"
| "min_len (NotBehind P) = 0"
| "min_len (NotAhead P) = 0"
| "min_len Eps = 0"

text \<open>The length of the placeholder token the input starts with, if it starts with one
  that no word character follows.\<close>

definition token_len :: "jsstring \<Rightarrow> nat option" where
  "token_len s = (if token_at SSN s then Some 8 else if token_at EMAIL s then Some 10
                  else if token_at PHONE_NUMBER s then Some 17 else None)"

text \<open>
  The texts on which redaction can be undone. When the inner loop of \<open>redactText\<close>
  records a new value \<open>v\<close> under a new placeholder, \<open>mint_ok\<close> asks that the label's
  counter is below 10000, that no substring of \<open>v\<close> is in the placeholder grammar, that
  the occurrences of \<open>v\<close> which get replaced in the working text are delimited, and that
  the new placeholder is not already a token of the working text. \<open>restorable\<close> runs
  the two loops of \<open>redactText\<close> and asks this at every recorded value.
\<close>

definition mint_ok :: "redact_state \<Rightarrow> label \<Rightarrow> jsstring \<Rightarrow> bool" where
  "mint_ok st l v =
     (counters st l < 10000 \<and> \<not> contains_placeholder v \<and> delimited v None (modified st)
      \<and> placeholder_of l (counters st l) \<notin> set (matched (pieces PLACEHOLDER_RE None (modified st))))"

fun matches_ok :: "label \<Rightarrow> redact_state \<Rightarrow> jsstring list \<Rightarrow> bool" where
  "matches_ok l st [] = True"
| "matches_ok l st (v # vs) =
     ((v \<in> set (map snd (mapping st)) \<or> mint_ok st l v) \<and> matches_ok l (redact_match l st v) vs)"

fun labels_ok :: "redact_state \<Rightarrow> label list \<Rightarrow> bool" where
  "labels_ok st [] = True"
| "labels_ok st (l # ls) =
     (matches_ok l st (matchAll (modified st) (new_RegExp (PII_PATTERNS l)))
      \<and> labels_ok (redact_label PII_PATTERNS st l) ls)"

definition restorable :: "jsstring \<Rightarrow> bool" where
  "restorable text = labels_ok \<lparr>modified = text, mapping = [], counters = (\<lambda>l. 1)\<rparr> keys_PII_PATTERNS"

text \<open>
  The values that one call of \<open>redactText\<close> sees: for each label in turn, the matches
  that \<open>matchAll\<close> returns on the working text as the labels before it have left it.
  \<open>first_seen\<close> keeps the first occurrence of each element of a list, in order.
\<close>

fun seen_matches :: "(label \<Rightarrow> regexp) \<Rightarrow> redact_state \<Rightarrow> label list \<Rightarrow> jsstring list" where
  "seen_matches pats st [] = []"
| "seen_matches pats st (l # ls) =
     matchAll (modified st) (new_RegExp (pats l)) @ seen_matches pats (redact_label pats st l) ls"

definition first_seen :: "'a list \<Rightarrow> 'a list" where
  "first_seen xs = rev (remdups (rev xs))"

text \<open>The number that a string of decimal digits denotes, and the states all of whose
  keys were minted from counter values below the present ones.\<close>

definition digits_value :: "jsstring \<Rightarrow> nat" where
  "digits_value s = foldl (\<lambda>a d. 10 * a + unat (d - 0x30)) 0 s"

definition keys_below :: "redact_state \<Rightarrow> bool" where
  "keys_below st = list_all (\<lambda>k. list_ex (\<lambda>l. list_ex (\<lambda>n. k = placeholder_of l n) [0..<counters st l])
                                     keys_PII_PATTERNS)
                            (map fst (mapping st))"

section \<open>The matcher on the shapes of the source's patterns\<close>

declare matcher.simps(5) [simp del]

lemma length_utf16 [simp]: "length (utf16 s) = length s"
  by (simp add: utf16_def)

lemma utf16_eq_Nil [simp]: "utf16 s = [] \<longleftrightarrow> s = []"
  by (simp add: utf16_def)

lemma label_names:
  "label_name SSN = [0x53, 0x53, 0x4E]"
  "label_name EMAIL = [0x45, 0x4D, 0x41, 0x49, 0x4C]"
  "label_name PHONE_NUMBER = [0x50, 0x48, 0x4F, 0x4E, 0x45, 0x5F, 0x4E, 0x55, 0x4D, 0x42, 0x45, 0x52]"
  by (simp_all add: label_name_def utf16_def)

declare label_names [code]

lemma is_digit_word: "is_digit c \<Longrightarrow> is_word c"
  by (simp add: is_word_def)

lemma matcher_Eps_fun: "matcher Eps = (\<lambda>y. [y])"
  by (rule ext) simp

lemma concat_map_concat_map:
  "concat (map f (concat (map g xs))) = concat (map (\<lambda>y. concat (map f (g y))) xs)"
  by (induction xs) simp_all

lemma matcher_seq_Nil: "matcher (seq []) x = [x]"
  by simp

lemma matcher_seq_single: "matcher (seq [r]) x = matcher r x"
  by simp

lemma matcher_seq_Cons: "matcher (seq (r # rs)) x = concat (map (matcher (seq rs)) (matcher r x))"
  by (cases rs) (simp_all add: matcher_Eps_fun)

lemma matcher_Rep_0: "matcher (Rep mn (Some 0) r) x = [x]"
  by (subst matcher.simps(5)) simp

lemma matcher_Rep_Suc:
  "matcher (Rep (Suc n) (Some (Suc k)) r) x = concat (map (matcher (Rep n (Some k) r)) (matcher r x))"
  by (subst matcher.simps(5)) simp

lemma matcher_digits:
  "matcher (Rep n (Some n) (Cls is_digit)) (p, s) =
     (if n \<le> length s \<and> list_all is_digit (take n s)
      then [(if n = 0 then p else Some (s ! (n - 1)), drop n s)] else [])"
proof (induction n arbitrary: p s)
  case 0
  show ?case by (simp add: matcher_Rep_0)
next
  case (Suc n)
  show ?case
  proof (cases s)
    case Nil
    then show ?thesis by (simp add: matcher_Rep_Suc)
  next
    case (Cons c cs)
    then show ?thesis using Suc [of "Some c" cs]
      by (simp add: matcher_Rep_Suc nth_Cons')
  qed
qed

lemma matcher_lit:
  "matcher (seq (lit w @ rs)) (p, s) =
     (if prefix w s then matcher (seq rs) (if w = [] then p else Some (last w), drop (length w) s) else [])"
proof (induction w arbitrary: p s)
  case Nil
  show ?case by simp
next
  case (Cons c w)
  show ?case
  proof (cases s)
    case Nil
    then show ?thesis by (simp add: matcher_seq_Cons del: seq.simps)
  next
    case (Cons d ds)
    then show ?thesis using Cons.IH [of "Some c" ds]
      by (auto simp add: matcher_seq_Cons simp del: seq.simps)
  qed
qed

lemma matcher_WordB:
  "matcher (seq (WordB # rs)) x = (if word_before x \<noteq> word_after x then matcher (seq rs) x else [])"
  by (simp add: matcher_seq_Cons del: seq.simps)

lemma matcher_Alt: "matcher (seq (Alt a b # rs)) x = matcher (seq (a # rs)) x @ matcher (seq (b # rs)) x"
  by (simp add: matcher_seq_Cons del: seq.simps)

lemma matcher_seq_seq: "matcher (seq (seq as # rs)) x = matcher (seq (as @ rs)) x"
proof (induction as arbitrary: x)
  case Nil
  show ?case by (simp add: matcher_seq_Cons matcher_seq_Nil del: seq.simps)
next
  case (Cons a as)
  have "matcher (seq (seq (a # as) # rs)) x
      = concat (map (matcher (seq rs)) (concat (map (matcher (seq as)) (matcher a x))))"
    by (simp only: matcher_seq_Cons)
  also have "\<dots> = concat (map (\<lambda>y. matcher (seq (seq as # rs)) y) (matcher a x))"
    by (simp add: matcher_seq_Cons concat_map_concat_map del: seq.simps)
  also have "\<dots> = concat (map (\<lambda>y. matcher (seq (as @ rs)) y) (matcher a x))"
    by (simp only: Cons.IH)
  also have "\<dots> = matcher (seq ((a # as) @ rs)) x"
    by (simp add: matcher_seq_Cons del: seq.simps)
  finally show ?case .
qed

lemma matcher_digits_then:
  "matcher (seq (digits n # rs)) (p, s) =
     (if n \<le> length s \<and> list_all is_digit (take n s)
      then matcher (seq rs) (if n = 0 then p else Some (s ! (n - 1)), drop n s) else [])"
  by (auto simp add: matcher_seq_Cons digits_def matcher_digits simp del: seq.simps)

subsection \<open>The placeholder pattern\<close>

lemma matcher_branch:
  assumes "w \<noteq> []"
  shows "matcher (seq [seq (lit w @ [digits 4]), WordB]) (p, s) =
     (if prefix w s \<and> length w + 4 \<le> length s \<and> list_all is_digit (take 4 (drop (length w) s))
         \<and> \<not> word_after (None, drop (length w + 4) s)
      then [(Some (s ! (length w + 3)), drop (length w + 4) s)] else [])"
proof -
  have a: "matcher (seq [seq (lit w @ [digits 4]), WordB]) (p, s)
        = matcher (seq (lit w @ [digits 4, WordB])) (p, s)"
    using matcher_seq_seq [of "lit w @ [digits 4]" "[WordB]" "(p, s)"] by simp
  have d: "list_all is_digit (take 4 t) \<Longrightarrow> 4 \<le> length t \<Longrightarrow> is_word (t ! 3)" for t
    by (rule is_digit_word) (simp add: list_all_length)
  have w: "word_after (q, t) = word_after (None, t)" for q t
    by (simp add: word_after_def)
  show ?thesis
    unfolding a matcher_lit matcher_digits_then matcher_seq_single
    using assms
    by (auto simp add: word_before_def w [of "Some _"] add.commute dest: d)
qed

lemma matcher_PLACEHOLDER:
  "matcher PLACEHOLDER_RE (p, s) =
     (if word_before (p, s) \<noteq> word_after (p, s)
      then matcher (seq [seq (lit (utf16 ''SSN_'') @ [digits 4]), WordB]) (p, s)
         @ matcher (seq [seq (lit (utf16 ''EMAIL_'') @ [digits 4]), WordB]) (p, s)
         @ matcher (seq [seq (lit (utf16 ''PHONE_NUMBER_'') @ [digits 4]), WordB]) (p, s)
      else [])"
  unfolding PLACEHOLDER_RE_def matcher_WordB matcher_Alt by simp

lemma token_at_word_after: "token_at l s \<Longrightarrow> word_after (p, s)"
  by (cases l; cases s)
     (auto simp add: token_at_def label_names utf16_def word_after_def is_word_def is_alpha_def is_upper_def)

lemma token_at_exclusive:
  "token_at SSN s \<Longrightarrow> \<not> token_at EMAIL s"
  "token_at SSN s \<Longrightarrow> \<not> token_at PHONE_NUMBER s"
  "token_at EMAIL s \<Longrightarrow> \<not> token_at PHONE_NUMBER s"
  by (cases s; auto simp add: token_at_def label_names utf16_def)+

lemma exec_at_PLACEHOLDER:
  "exec_at PLACEHOLDER_RE (p, s) =
     (if word_before (p, s) then None
      else if token_at SSN s then Some 8 else if token_at EMAIL s then Some 10
      else if token_at PHONE_NUMBER s then Some 17 else None)"
proof -
  have b: "matcher (seq [seq (lit (label_name l @ utf16 ''_'') @ [digits 4]), WordB]) (p, s) =
     (if token_at l s
      then [(Some (s ! (length (label_name l) + 4)), drop (length (label_name l) + 5) s)]
      else [])" for l
    by (subst matcher_branch) (auto simp add: token_at_def Let_def ac_simps)
  have n: "utf16 ''SSN_'' = label_name SSN @ utf16 ''_''"
     "utf16 ''EMAIL_'' = label_name EMAIL @ utf16 ''_''"
     "utf16 ''PHONE_NUMBER_'' = label_name PHONE_NUMBER @ utf16 ''_''"
    by (simp_all add: label_name_def utf16_def)
  have len: "token_at l s \<Longrightarrow> length (label_name l) + 5 \<le> length s" for l
    by (simp add: token_at_def Let_def)
  have none: "\<not> word_after (p, s) \<Longrightarrow> \<not> token_at l s" for l
    using token_at_word_after by blast
  show ?thesis
    unfolding exec_at_def matcher_PLACEHOLDER n b
    using none [of SSN] none [of EMAIL] none [of PHONE_NUMBER] token_at_exclusive [of s]
      len [of SSN] len [of EMAIL] len [of PHONE_NUMBER]
    by (auto simp add: label_names)
qed

section \<open>Replacement\<close>

lemma substitute_id: "substitute (\<lambda>t. t) (pieces r p s) = s"
proof (induction r p s rule: pieces.induct)
  case (1 r p)
  show ?case by (simp split: option.split)
next
  case (2 r p c cs)
  show ?case
  proof (cases "exec_at r (p, c # cs)")
    case None
    with 2 show ?thesis by simp
  next
    case (Some n)
    with 2 show ?thesis by (cases n) simp_all
  qed
qed

subsection \<open>Tokens that replacement finds\<close>

lemma substitute_cong:
  "(\<And>t. t \<in> set (matched ps) \<Longrightarrow> f t = g t) \<Longrightarrow> substitute f ps = substitute g ps"
proof (induction ps)
  case Nil
  show ?case by simp
next
  case (Cons a ps)
  then show ?case by (cases a) simp_all
qed

lemma label_in_keys: "l \<in> set keys_PII_PATTERNS"
  by (cases l) (simp_all add: keys_PII_PATTERNS_def)

lemma token_at_grammar:
  assumes "token_at l s"
  shows "placeholder_grammar (take (length (label_name l) + 5) s)"
proof -
  let ?n = "length (label_name l)"
  have a: "take (?n + 1) s = label_name l @ utf16 ''_''"
    using assms by (auto simp add: token_at_def Let_def prefix_def)
  have b: "?n + 5 \<le> length s"
    using assms by (simp add: token_at_def Let_def)
  have c: "list_all is_digit (take 4 (drop (?n + 1) s))"
    using assms by (simp add: token_at_def Let_def)
  have "length (take (?n + 5) s) = ?n + 5"
    using b by simp
  moreover have "take (?n + 1) (take (?n + 5) s) = label_name l @ utf16 ''_''"
    using a by (simp add: min_def)
  moreover have "drop (?n + 1) (take (?n + 5) s) = take 4 (drop (?n + 1) s)"
    by (simp add: drop_take)
  ultimately show ?thesis
    unfolding placeholder_grammar_def list_ex_iff using c label_in_keys [of l]
    by (intro bexI [of _ l]) simp_all
qed

lemma exec_at_PLACEHOLDER_Some:
  assumes "exec_at PLACEHOLDER_RE (p, s) = Some n"
  shows "\<exists>l. token_at l s \<and> n = length (label_name l) + 5 \<and> \<not> word_before (p, s)"
  using assms unfolding exec_at_PLACEHOLDER
  by (auto simp add: label_names split: if_splits)

lemma sublist_take: "sublist (take n s) s"
  by (metis append_take_drop_id sublist_appendI append_Nil)

lemma sublist_drop_Cons: "sublist u (c # cs)" if "sublist u (drop k cs)"
proof -
  from that obtain ps ss where "drop k cs = ps @ u @ ss"
    by (auto simp add: sublist_def)
  then have "(c # take k cs @ ps) @ u @ ss = c # take k cs @ drop k cs"
    by simp
  then have "c # cs = (c # take k cs @ ps) @ u @ ss"
    by simp
  then show ?thesis unfolding sublist_def by (intro exI)
qed

lemma pieces_PLACEHOLDER_matched_aux:
  "r = PLACEHOLDER_RE \<Longrightarrow> t \<in> set (matched (pieces r p s))
   \<Longrightarrow> placeholder_grammar t \<and> sublist t s"
proof (induction r p s rule: pieces.induct)
  case (1 r p)
  have "exec_at PLACEHOLDER_RE (p, []) = None"
    by (simp add: exec_at_PLACEHOLDER token_at_def)
  with 1 show ?case by simp
next
  case (2 r p c cs)
  note IH = "2.IH" and r = "2.prems"(1) and t = "2.prems"(2)
  show ?case
  proof (cases "exec_at r (p, c # cs)")
    case None
    with IH(1) r t show ?thesis by (auto simp add: sublist_Cons_right)
  next
    case (Some n)
    then obtain l where l: "token_at l (c # cs)" "n = length (label_name l) + 5"
      using exec_at_PLACEHOLDER_Some r by blast
    then obtain k where k: "n = Suc k" by (cases n) simp_all
    have "length (label_name l) + 5 = Suc k"
      using l(2) k by simp
    then have e: "take (length (label_name l) + 5) (c # cs) = c # take k cs"
      by (simp only: take_Suc_Cons)
    have g: "placeholder_grammar (c # take k cs)"
      using token_at_grammar [OF l(1)] unfolding e .
    have s: "sublist (c # take k cs) (c # cs)"
      using sublist_take [of "Suc k" "c # cs"] by simp
    from t Some k consider (here) "t = c # take k cs"
      | (later) "t \<in> set (matched (pieces r (Some (last (c # take k cs))) (drop k cs)))"
      by (auto simp del: last.simps)
    then show ?thesis
    proof cases
      case here
      show ?thesis unfolding here using g s by (rule conjI)
    next
      case later
      have "placeholder_grammar t \<and> sublist t (drop k cs)"
        using IH(3) [OF Some k r later] .
      then show ?thesis using sublist_drop_Cons [of t k cs c] by (intro conjI) (elim conjE, assumption)+
    qed
  qed
qed

lemma pieces_PLACEHOLDER_matched:
  "t \<in> set (matched (pieces PLACEHOLDER_RE p s)) \<Longrightarrow> placeholder_grammar t \<and> sublist t s"
  by (rule pieces_PLACEHOLDER_matched_aux [OF refl])

lemma unredactOnce_absent:
  assumes "\<And>t. t \<in> set (matched (pieces PLACEHOLDER_RE None text)) \<Longrightarrow> map_of mp t = None"
  shows "unredactOnce text mp = text"
proof -
  have "unredactOnce text mp = substitute (\<lambda>t. t) (pieces PLACEHOLDER_RE None text)"
    unfolding unredactOnce_def replace_def
    by (rule substitute_cong) (simp add: assms)
  then show ?thesis by (simp add: substitute_id)
qed

lemma placeholder_grammar_length:
  "placeholder_grammar t \<Longrightarrow> \<exists>l. length t = length (label_name l) + 5"
  by (auto simp add: placeholder_grammar_def list_ex_iff)

lemma contains_placeholder_iff:
  "contains_placeholder s \<longleftrightarrow> (\<exists>t. placeholder_grammar t \<and> sublist t s)"
proof
  assume "contains_placeholder s"
  then show "\<exists>t. placeholder_grammar t \<and> sublist t s"
  proof (induction s)
    case Nil
    then show ?case by simp
  next
    case (Cons c cs)
    show ?case
    proof (cases "contains_placeholder cs")
      case True
      with Cons.IH show ?thesis by (auto simp add: sublist_Cons_right)
    next
      case False
      with Cons.prems obtain l
        where "placeholder_grammar (take (length (label_name l) + 5) (c # cs))"
        by (auto simp add: list_ex_iff)
      then show ?thesis using sublist_take [of "length (label_name l) + 5" "c # cs"] by blast
    qed
  qed
next
  assume "\<exists>t. placeholder_grammar t \<and> sublist t s"
  then obtain t ps ss where t: "placeholder_grammar t" "s = ps @ t @ ss"
    by (auto simp add: sublist_def)
  then obtain l where l: "length t = length (label_name l) + 5"
    using placeholder_grammar_length by blast
  have "contains_placeholder (ps @ t @ ss)"
  proof (induction ps)
    case Nil
    obtain c cs where c: "t @ ss = c # cs" using l by (cases "t @ ss") auto
    have "take (length (label_name l) + 5) (c # cs) = t"
      using c l by (metis append_eq_conv_conj)
    with t(1) c label_in_keys [of l] show ?case by (auto simp add: list_ex_iff)
  next
    case (Cons a ps)
    then show ?case by simp
  qed
  with t show "contains_placeholder s" by simp
qed

section \<open>The redaction loop\<close>

lemma snd_set_update: "snd ` set (AList.update k v al) \<subseteq> insert v (snd ` set al)"
proof (induction al)
  case Nil
  show ?case by simp
next
  case (Cons a al)
  then show ?case by (cases a) auto
qed

lemma distinct_snd_update:
  "distinct (map snd al) \<Longrightarrow> v \<notin> snd ` set al \<Longrightarrow> distinct (map snd (AList.update k v al))"
proof (induction al)
  case Nil
  show ?case by simp
next
  case (Cons a al)
  obtain k' v' where a: "a = (k', v')" by (cases a)
  show ?case
  proof (cases "k' = k")
    case True
    with Cons.prems a show ?thesis by simp
  next
    case False
    have "v' \<notin> snd ` set (AList.update k v al)"
      using snd_set_update [of k v al] Cons.prems a by auto
    with False Cons a show ?thesis by simp
  qed
qed


lemma redact_match_distinct:
  "distinct (map snd (mapping st)) \<Longrightarrow> distinct (map snd (mapping (redact_match l st m)))"
  unfolding redact_match_def Let_def by (simp add: distinct_snd_update)

lemma foldl_redact_match_distinct:
  "distinct (map snd (mapping st)) \<Longrightarrow> distinct (map snd (mapping (foldl (redact_match l) st ms)))"
proof (induction ms arbitrary: st)
  case Nil
  then show ?case by simp
next
  case (Cons m ms)
  from Cons.prems have "distinct (map snd (mapping (redact_match l st m)))"
    by (rule redact_match_distinct)
  then have "distinct (map snd (mapping (foldl (redact_match l) (redact_match l st m) ms)))"
    by (rule Cons.IH)
  then show ?case by simp
qed

lemma redact_label_distinct:
  "distinct (map snd (mapping st)) \<Longrightarrow> distinct (map snd (mapping (redact_label pats st l)))"
  unfolding redact_label_def Let_def by (rule foldl_redact_match_distinct)

lemma foldl_redact_label_distinct:
  "distinct (map snd (mapping st)) \<Longrightarrow> distinct (map snd (mapping (foldl (redact_label pats) st ls)))"
proof (induction ls arbitrary: st)
  case Nil
  then show ?case by simp
next
  case (Cons l ls)
  from Cons.prems have "distinct (map snd (mapping (redact_label pats st l)))"
    by (rule redact_label_distinct)
  then have "distinct (map snd (mapping (foldl (redact_label pats) (redact_label pats st l) ls)))"
    by (rule Cons.IH)
  then show ?case by simp
qed

lemma redactText_distinct_values: "distinct (map snd (mapping_of (redactText pats text)))"
proof -
  have "distinct (map snd (mapping (redact_run pats text)))"
    unfolding redact_run_def by (rule foldl_redact_label_distinct) simp
  then show ?thesis by (simp add: redactText_def Let_def)
qed

lemma redact_label_lastIndex:
  assumes "source (pats l) = source (pats' l)"
  shows "redact_label pats st l = redact_label pats' st l"
  unfolding redact_label_def new_RegExp_def using assms by simp

lemma foldl_redact_label_lastIndex:
  assumes "\<And>l. source (pats l) = source (pats' l)"
  shows "foldl (redact_label pats) st ls = foldl (redact_label pats') st ls"
proof (induction ls arbitrary: st)
  case Nil
  show ?case by simp
next
  case (Cons l ls)
  have "redact_label pats st l = redact_label pats' st l"
    by (rule redact_label_lastIndex) (rule assms)
  with Cons.IH [of "redact_label pats' st l"] show ?case by simp
qed

section \<open>The social security pattern and the counters\<close>

declare toString.simps [simp del]

lemma word_after_cursor: "word_after (q, t) = word_after (None, t)"
  by (simp add: word_after_def)

lemma matcher_SSN:
  "matcher SSN_RE (p, s) = (if \<not> word_before (p, s) \<and> ssn_at s then [(Some (s ! 10), drop 11 s)] else [])"
proof -
  have d: "list_all is_digit (take 3 t) \<Longrightarrow> 3 \<le> length t \<Longrightarrow> is_word (hd t)" for t
    by (cases t) (auto simp add: is_digit_word)
  have d4: "list_all is_digit (take 4 t) \<Longrightarrow> 4 \<le> length t \<Longrightarrow> is_word (t ! 3)" for t
    by (rule is_digit_word) (simp add: list_all_length)
  have wa: "3 \<le> length s \<Longrightarrow> list_all is_digit (take 3 s) \<Longrightarrow> word_after (p, s)"
    using d [of s] by (cases s) (auto simp add: word_after_def)
  have nwa: "\<not> word_after (p, s) \<Longrightarrow> \<not> (3 \<le> length s \<and> list_all is_digit (take 3 s))"
    using wa by blast
  have e: "matcher SSN_RE (p, s) =
     (if word_before (p, s) \<noteq> word_after (p, s)
      then (if 3 \<le> length s \<and> list_all is_digit (take 3 s)
        then (if prefix (utf16 ''-'') (drop 3 s)
          then (if 2 \<le> length (drop 4 s) \<and> list_all is_digit (take 2 (drop 4 s))
            then (if prefix (utf16 ''-'') (drop 6 s)
              then (if 4 \<le> length (drop 7 s) \<and> list_all is_digit (take 4 (drop 7 s))
                then matcher WordB (Some (drop 7 s ! 3), drop 11 s) else [])
              else []) else []) else []) else []) else [])"
    unfolding SSN_RE_def append_Cons append_Nil matcher_WordB matcher_digits_then matcher_lit
      matcher_seq_single
    by (simp add: utf16_def)
  show ?thesis
    unfolding e using nwa d4 [of "drop 7 s"]
    by (auto simp add: ssn_at_def word_before_def word_after_cursor [of "Some _"] utf16_def)
qed

lemma exec_at_SSN:
  "exec_at SSN_RE (p, s) = (if \<not> word_before (p, s) \<and> ssn_at s then Some 11 else None)"
  by (auto simp add: exec_at_def matcher_SSN ssn_at_def)

lemma pieces_ssn_block:
  assumes "length ds = 4" "list_all is_digit ds" "\<not> word_before (p, [])"
  shows "pieces SSN_RE p (ssn_block ds @ rest)
         = Match (ssn_value ds) # Lit 0x20 # pieces SSN_RE (Some 0x20) rest"
proof -
  from assms(1) obtain a b c d where ds: "ds = [a, b, c, d]"
    by (auto simp add: length_Suc_conv numeral_eq_Suc)
  have dg: "is_digit a" "is_digit b" "is_digit c" "is_digit d"
    using assms(2) ds by simp_all
  have z: "is_digit 0x30" by (simp add: is_digit_def)
  have sp: "\<not> is_word 0x20"
    by (simp add: is_word_def is_alpha_def is_upper_def is_lower_def is_digit_def)
  have w: "\<not> word_before (p, t)" for t
    using assms(3) by (simp add: word_before_def)
  have tx: "ssn_block ds @ rest
      = 0x30 # 0x30 # 0x30 # 0x2D # 0x30 # 0x30 # 0x2D # a # b # c # d # 0x20 # rest"
    by (simp add: ssn_block_def ssn_value_def utf16_def ds)
  have vl: "ssn_value ds = [0x30, 0x30, 0x30, 0x2D, 0x30, 0x30, 0x2D, a, b, c, d]"
    by (simp add: ssn_value_def utf16_def ds)
  have at: "ssn_at (0x30 # 0x30 # 0x30 # 0x2D # 0x30 # 0x30 # 0x2D # a # b # c # d # 0x20 # rest)"
    using dg z sp by (simp add: ssn_at_def utf16_def word_after_def)
  have e1: "exec_at SSN_RE (p, 0x30 # 0x30 # 0x30 # 0x2D # 0x30 # 0x30 # 0x2D # a # b # c # d # 0x20 # rest)
      = Some (Suc 10)"
    using at w by (simp add: exec_at_SSN)
  have e2: "exec_at SSN_RE (Some d, 0x20 # rest) = None"
    using dg(4) by (simp add: exec_at_SSN word_before_def is_digit_word)
  show ?thesis
    unfolding tx vl by (simp add: e1 e2)
qed

lemma matched_ssn_blocks:
  assumes "\<And>ds. ds \<in> set dss \<Longrightarrow> length ds = 4 \<and> list_all is_digit ds"
    and "\<not> word_before (p, [])"
  shows "matched (pieces SSN_RE p (concat (map ssn_block dss))) = map ssn_value dss"
  using assms
proof (induction dss arbitrary: p)
  case Nil
  have "exec_at SSN_RE (p, []) = None"
    by (simp add: exec_at_SSN ssn_at_def)
  then show ?case by simp
next
  case (Cons ds dss)
  have sp: "\<not> word_before (Some (0x20 :: code_unit), [])"
    by (simp add: word_before_def is_word_def is_alpha_def is_upper_def is_lower_def is_digit_def)
  have "pieces SSN_RE p (ssn_block ds @ concat (map ssn_block dss))
         = Match (ssn_value ds) # Lit 0x20 # pieces SSN_RE (Some 0x20) (concat (map ssn_block dss))"
    using Cons.prems by (intro pieces_ssn_block) simp_all
  moreover have "matched (pieces SSN_RE (Some 0x20) (concat (map ssn_block dss))) = map ssn_value dss"
    using Cons.prems(1) sp by (intro Cons.IH) simp_all
  ultimately show ?case by simp
qed

lemma redact_match_keys:
  "fst ` set (mapping st) \<subseteq> fst ` set (mapping (redact_match l st m))"
  unfolding redact_match_def Let_def by (auto simp add: dom_update)

lemma foldl_redact_match_keys:
  "fst ` set (mapping st) \<subseteq> fst ` set (mapping (foldl (redact_match l) st ms))"
proof (induction ms arbitrary: st)
  case Nil
  show ?case by simp
next
  case (Cons m ms)
  have "fst ` set (mapping st) \<subseteq> fst ` set (mapping (redact_match l st m))"
    by (rule redact_match_keys)
  also have "\<dots> \<subseteq> fst ` set (mapping (foldl (redact_match l) (redact_match l st m) ms))"
    by (rule Cons.IH)
  finally show ?case by simp
qed

lemma redact_label_keys:
  "fst ` set (mapping st) \<subseteq> fst ` set (mapping (redact_label pats st l))"
  unfolding redact_label_def Let_def by (rule foldl_redact_match_keys)

lemma redact_match_new:
  assumes "m \<notin> snd ` set (mapping st)"
  shows "placeholder_of l (counters st l) \<in> fst ` set (mapping (redact_match l st m))"
    and "counters (redact_match l st m) l = counters st l + 1"
    and "snd ` set (mapping (redact_match l st m)) \<subseteq> insert m (snd ` set (mapping st))"
proof -
  have e: "redact_match l st m =
      \<lparr>modified = join_str (split_str (modified st) m) (placeholder_of l (counters st l)),
       mapping = AList.update (placeholder_of l (counters st l)) m (mapping st),
       counters = (counters st)(l := counters st l + 1)\<rparr>"
    using assms unfolding redact_match_def Let_def placeholder_of_def by simp
  show "placeholder_of l (counters st l) \<in> fst ` set (mapping (redact_match l st m))"
    unfolding e by (simp add: dom_update)
  show "counters (redact_match l st m) l = counters st l + 1"
    unfolding e by simp
  show "snd ` set (mapping (redact_match l st m)) \<subseteq> insert m (snd ` set (mapping st))"
    unfolding e using snd_set_update [of "placeholder_of l (counters st l)" m "mapping st"] by simp
qed

lemma foldl_redact_match_mints:
  assumes "distinct ms" "set ms \<inter> snd ` set (mapping st) = {}" "i < length ms"
  shows "placeholder_of l (counters st l + i) \<in> fst ` set (mapping (foldl (redact_match l) st ms))"
  using assms
proof (induction ms arbitrary: st i)
  case Nil
  then show ?case by simp
next
  case (Cons m ms)
  let ?st = "redact_match l st m"
  have m: "m \<notin> snd ` set (mapping st)" using Cons.prems(2) by auto
  show ?case
  proof (cases i)
    case 0
    have "placeholder_of l (counters st l) \<in> fst ` set (mapping ?st)"
      using m by (rule redact_match_new(1))
    then have "placeholder_of l (counters st l) \<in> fst ` set (mapping (foldl (redact_match l) ?st ms))"
      using foldl_redact_match_keys [of ?st l ms] by blast
    with 0 show ?thesis by simp
  next
    case (Suc j)
    have d: "distinct ms" and nm: "m \<notin> set ms" using Cons.prems(1) by simp_all
    have "snd ` set (mapping ?st) \<subseteq> insert m (snd ` set (mapping st))"
      using m by (rule redact_match_new(3))
    then have v: "set ms \<inter> snd ` set (mapping ?st) = {}"
      using Cons.prems(2) nm by auto
    have j: "j < length ms" using Cons.prems(3) Suc by simp
    have "placeholder_of l (counters ?st l + j) \<in> fst ` set (mapping (foldl (redact_match l) ?st ms))"
      using d v j by (rule Cons.IH)
    moreover have "counters ?st l + j = counters st l + i"
      using redact_match_new(2) [OF m, of l] Suc by simp
    ultimately show ?thesis by simp
  qed
qed

lemma matchAll_fresh: "matchAll text (new_RegExp re) = matched (pieces (source re) None text)"
  by (simp add: matchAll_def new_RegExp_def cursor_at_def)

lemma n_lists_digits:
  assumes "ds \<in> set (List.n_lists 4 (utf16 ''0123456789''))"
  shows "length ds = 4 \<and> list_all is_digit ds"
proof -
  have "list_all is_digit (utf16 ''0123456789'')"
    by (simp add: utf16_def is_digit_def)
  then have "\<forall>c \<in> set (utf16 ''0123456789''). is_digit c"
    by (simp only: list_all_iff)
  moreover from assms have "length ds = 4" "set ds \<subseteq> set (utf16 ''0123456789'')"
    by (simp_all add: set_n_lists)
  ultimately show ?thesis unfolding list_all_iff by blast
qed

lemma many_ssns_matches:
  "matchAll many_ssns (new_RegExp (PII_PATTERNS SSN))
   = map ssn_value (List.n_lists 4 (utf16 ''0123456789''))"
  unfolding matchAll_fresh many_ssns_def
  by (simp add: PII_PATTERNS_def pattern_of_def)
     (rule matched_ssn_blocks, rule n_lists_digits, simp_all add: word_before_def)

lemma many_ssns_distinct: "distinct (map ssn_value (List.n_lists 4 (utf16 ''0123456789'')))"
proof -
  have "distinct (utf16 ''0123456789'')" by (simp add: utf16_def)
  then have "distinct (List.n_lists 4 (utf16 ''0123456789''))" by (rule distinct_n_lists)
  moreover have "inj ssn_value" by (simp add: inj_def ssn_value_def)
  ultimately show ?thesis by (simp add: distinct_map inj_on_def inj_def)
qed

lemma length_digits10: "length (utf16 ''0123456789'') = 10"
  by simp

lemma many_ssns_count: "length (map ssn_value (List.n_lists 4 (utf16 ''0123456789''))) = 10000"
  unfolding length_map length_n_lists length_digits10 by simp

lemma pad4_10000: "placeholder_of SSN 10000 = utf16 ''SSN_10000''"
  by (simp add: placeholder_of_def pad4_def padStart_def label_names utf16_def toString.simps)

section \<open>Restoration after redaction\<close>

lemma split_at_not_Nil: "split_at sep cur s \<noteq> []"
  by (induction sep cur s rule: split_at.induct) auto

lemma split_at_join:
  "sep \<noteq> [] \<Longrightarrow> join_str (split_at sep cur s) p = cur @ replace_all sep p s"
proof (induction sep cur s rule: split_at.induct)
  case (1 sep cur)
  show ?case by simp
next
  case (2 sep cur c cs)
  note ne = split_at_not_Nil
  show ?case
  proof (cases "prefix sep (c # cs)")
    case True
    obtain x xs where x: "split_at sep [] (drop (length sep - 1) cs) = x # xs"
      using ne [of sep "[]" "drop (length sep - 1) cs"] by (cases "split_at sep [] (drop (length sep - 1) cs)") auto
    have "join_str (cur # x # xs) p = cur @ p @ join_str (x # xs) p"
      by simp
    with True 2 x show ?thesis by simp
  next
    case False
    with 2 show ?thesis by simp
  qed
qed

lemma split_join:
  "v \<noteq> [] \<Longrightarrow> join_str (split_str s v) p = replace_all v p s"
  by (simp add: split_str_def split_at_join)

lemma matcher_min_len:
  "y \<in> set (matcher r x) \<Longrightarrow> length (snd y) + min_len r \<le> length (snd x)"
proof (induction r x arbitrary: y rule: matcher.induct)
  case (1 P p)
  then show ?case by simp
next
  case (2 P p c cs)
  then show ?case by (auto split: if_splits)
next
  case (3 a b x)
  from "3.prems" obtain z where z: "z \<in> set (matcher a x)" "y \<in> set (matcher b z)"
    by auto
  from "3.IH"(1) [OF z(1)] "3.IH"(2) [OF z(1) z(2)] show ?case by simp
next
  case (4 a b x)
  from "4.prems" consider "y \<in> set (matcher a x)" | "y \<in> set (matcher b x)"
    by auto
  then show ?case
  proof cases
    case 1
    from "4.IH"(1) [OF 1] show ?thesis by simp
  next
    case 2
    from "4.IH"(2) [OF 2] show ?thesis by simp
  qed
next
  case (5 mn mx r x)
  show ?case
  proof (cases "mx = Some 0")
    case True
    with "5.prems" show ?thesis by (simp add: matcher_Rep_0)
  next
    case False
    from "5.prems" False consider (stop) "mn = 0" "y = x"
      | (more) z where "z \<in> set (matcher r x)" "\<not> (mn = 0 \<and> length (snd x) \<le> length (snd z))"
          "y \<in> set (matcher (Rep (mn - 1) (map_option (\<lambda>k. k - 1) mx) r) z)"
      by (subst (asm) matcher.simps(5)) (auto split: if_splits)
    then show ?thesis
    proof cases
      case stop
      then show ?thesis by (simp split: option.split)
    next
      case more
      have a: "length (snd z) + min_len r \<le> length (snd x)"
        using "5.IH"(1) [OF False more(1)] .
      have b: "length (snd y) + min_len (Rep (mn - 1) (map_option (\<lambda>k. k - 1) mx) r) \<le> length (snd z)"
        using "5.IH"(2) [OF False more(1) more(2) more(3)] .
      have c: "min_len (Rep mn mx r) \<le> min_len r + min_len (Rep (mn - 1) (map_option (\<lambda>k. k - 1) mx) r)"
      proof (cases mx)
        case None
        then show ?thesis by (cases mn) simp_all
      next
        case (Some k)
        with False obtain k' where "k = Suc k'" by (cases k) auto
        with Some show ?thesis by (cases mn) simp_all
      qed
      from a b c show ?thesis by linarith
    qed
  qed
next
  case (6 x)
  then show ?case by (simp split: if_splits)
next
  case (7 P x)
  then show ?case by (simp split: option.splits if_splits)
next
  case (8 P x)
  then show ?case by (simp split: list.splits if_splits)
next
  case (9 x)
  then show ?case by simp
qed

lemma exec_at_min_len:
  assumes "exec_at r x = Some n"
  shows "min_len r \<le> n \<and> n \<le> length (snd x)"
proof -
  from assms obtain y ys where y: "matcher r x = y # ys" "n = length (snd x) - length (snd y)"
    by (auto simp add: exec_at_def split: list.splits)
  then have "y \<in> set (matcher r x)" by simp
  from matcher_min_len [OF this] y(2) show ?thesis by simp
qed

lemma pieces_Lit:
  "exec_at r (q, c # cs) = None \<Longrightarrow> pieces r q (c # cs) = Lit c # pieces r (Some c) cs"
  by simp

lemma pieces_Match:
  assumes "exec_at r (q, s) = Some n" "0 < n"
  shows "pieces r q s = Match (take n s) # pieces r (Some (s ! (n - 1))) (drop n s)"
proof -
  from exec_at_min_len [OF assms(1)] have le: "n \<le> length s" by simp
  with assms(2) obtain c cs where s: "s = c # cs" by (cases s) auto
  from assms(2) obtain k where k: "n = Suc k" by (cases n) auto
  have "k \<le> length cs" using le s k by simp
  then have "last (c # take k cs) = (c # take k cs) ! k"
    using last_conv_nth [of "c # take k cs"] by simp
  then have "last (c # take k cs) = (c # cs) ! k"
    by (cases k) simp_all
  with assms(1) s k show ?thesis by (simp del: last.simps)
qed

lemma matched_nonempty:
  "0 < min_len r \<Longrightarrow> [] \<notin> set (matched (pieces r p s))"
proof (induction r p s rule: pieces.induct)
  case (1 r p)
  have "exec_at r (p, []) = None"
  proof (cases "exec_at r (p, [])")
    case (Some n)
    from exec_at_min_len [OF this] 1 show ?thesis by simp
  qed simp
  then show ?case by simp
next
  case (2 r p c cs)
  show ?case
  proof (cases "exec_at r (p, c # cs)")
    case None
    with 2 show ?thesis by simp
  next
    case (Some n)
    from exec_at_min_len [OF this] "2.prems" obtain k where k: "n = Suc k"
      by (cases n) auto
    with 2 Some show ?thesis by (simp del: last.simps)
  qed
qed

lemma min_len_catalog: "0 < min_len (pattern_of l)"
  by (cases l)
     (simp_all add: pattern_of_def SSN_RE_def EMAIL_RE_def PHONE_NUMBER_RE_def digits_def opt_def utf16_def)

lemma exec_at_PH:
  "exec_at PLACEHOLDER_RE (q, s) = (if word_before (q, s) then None else token_len s)"
  by (simp add: exec_at_PLACEHOLDER token_len_def)

lemma token_len_Some:
  "token_len s = Some n \<longleftrightarrow> (\<exists>l. token_at l s \<and> n = length (label_name l) + 5)"
proof
  assume "token_len s = Some n"
  then show "\<exists>l. token_at l s \<and> n = length (label_name l) + 5"
    by (auto simp add: token_len_def label_names split: if_splits)
next
  assume "\<exists>l. token_at l s \<and> n = length (label_name l) + 5"
  then obtain l where l: "token_at l s" "n = length (label_name l) + 5" by blast
  then show "token_len s = Some n"
    using token_at_exclusive [of s] by (cases l) (auto simp add: token_len_def label_names)
qed

lemma token_len_None: "token_len s = None \<longleftrightarrow> (\<forall>l. \<not> token_at l s)"
proof -
  have "(\<forall>l. \<not> token_at l s) \<longleftrightarrow> \<not> token_at SSN s \<and> \<not> token_at EMAIL s \<and> \<not> token_at PHONE_NUMBER s"
    by (metis label.exhaust)
  then show ?thesis by (simp add: token_len_def)
qed

lemma prefix_iff_take: "prefix xs ys \<longleftrightarrow> take (length xs) ys = xs"
  by (metis append_take_drop_id prefix_def append_eq_conv_conj)

lemma token_at_split:
  assumes "n = length (label_name l) + 5" "n \<le> length s"
  shows "token_at l s \<longleftrightarrow> token_at l (take n s) \<and> \<not> word_after (None, drop n s)"
proof -
  have "prefix (label_name l @ utf16 ''_'') (take n s) = prefix (label_name l @ utf16 ''_'') s"
    unfolding prefix_iff_take using assms by (simp add: min_def)
  moreover have "take 4 (drop (length (label_name l) + 1) (take n s))
      = take 4 (drop (length (label_name l) + 1) s)"
    using assms by (simp add: drop_take)
  ultimately show ?thesis
    using assms by (auto simp add: token_at_def Let_def word_after_def ac_simps)
qed

lemma label_name_words: "list_all is_word (label_name l @ utf16 ''_'')"
  by (cases l) (simp_all add: label_names utf16_def is_word_def is_alpha_def is_upper_def)

lemma token_at_words:
  assumes "token_at l s"
  shows "list_all is_word (take (length (label_name l) + 5) s)"
proof -
  let ?n = "length (label_name l) + 1"
  have a: "take ?n s = label_name l @ utf16 ''_''"
    using assms by (auto simp add: token_at_def Let_def prefix_def)
  have b: "list_all is_digit (take 4 (drop ?n s))"
    using assms by (simp add: token_at_def Let_def)
  have "take (?n + 4) s = take ?n s @ take 4 (drop ?n s)"
    by (rule take_add)
  moreover have "list_all is_word (take 4 (drop ?n s))"
    using b unfolding list_all_iff by (auto intro: is_digit_word)
  ultimately have "list_all is_word (take (?n + 4) s)"
    using a label_name_words [of l] by simp
  then show ?thesis by (simp add: add.commute)
qed

lemma digit_unit: "d < 10 \<Longrightarrow> is_digit (0x30 + of_nat d)"
proof -
  assume "d < 10"
  then have "d = 0 \<or> d = 1 \<or> d = 2 \<or> d = 3 \<or> d = 4 \<or> d = 5 \<or> d = 6 \<or> d = 7 \<or> d = 8 \<or> d = 9"
    by arith
  then show ?thesis by (elim disjE) (simp_all add: is_digit_def)
qed

lemma toString_digits: "list_all is_digit (toString n)"
proof (induction n rule: toString.induct)
  case (1 n)
  show ?case
  proof (cases "n < 10")
    case True
    then show ?thesis by (subst toString.simps) (simp add: digit_unit)
  next
    case False
    with 1 show ?thesis by (subst toString.simps) (simp add: digit_unit)
  qed
qed

lemma length_toString: "n < 10 ^ Suc k \<Longrightarrow> length (toString n) \<le> Suc k"
proof (induction k arbitrary: n)
  case 0
  then show ?case by (subst toString.simps) simp
next
  case (Suc k)
  show ?case
  proof (cases "n < 10")
    case True
    then show ?thesis by (subst toString.simps) simp
  next
    case False
    from Suc.prems have "n div 10 < 10 ^ Suc k" by (simp add: less_mult_imp_div_less)
    from Suc.IH [OF this] False show ?thesis by (subst toString.simps) simp
  qed
qed

lemma pad4_digits: "list_all is_digit (pad4 n)"
proof -
  have "is_digit 0x30" by (simp add: is_digit_def)
  then have "list_all is_digit (replicate k 0x30)" for k
    by (simp add: list_all_iff)
  with toString_digits [of n] show ?thesis by (simp add: pad4_def padStart_def)
qed

lemma length_pad4: "n < 10000 \<Longrightarrow> length (pad4 n) = 4"
  using length_toString [of n 3] by (simp add: pad4_def padStart_def)

lemma token_at_placeholder_of:
  assumes "n < 10000"
  shows "token_at l (placeholder_of l n @ r) \<longleftrightarrow> \<not> word_after (None, r)"
proof -
  have "placeholder_of l n @ r = (label_name l @ utf16 ''_'') @ pad4 n @ r"
    by (simp add: placeholder_of_def)
  then show ?thesis
    using pad4_digits [of n] length_pad4 [OF assms]
    by (simp add: token_at_def Let_def)
qed

lemma length_placeholder_of: "n < 10000 \<Longrightarrow> length (placeholder_of l n) = length (label_name l) + 5"
  by (simp add: placeholder_of_def length_pad4)

lemma replace_all_skip:
  "(\<And>j. j < k \<Longrightarrow> \<not> prefix v (drop j s)) \<Longrightarrow> k \<le> length s
   \<Longrightarrow> replace_all v p s = take k s @ replace_all v p (drop k s)"
proof (induction k arbitrary: s)
  case 0
  show ?case by simp
next
  case (Suc k)
  from Suc.prems(2) obtain c cs where s: "s = c # cs" by (cases s) auto
  have n0: "\<not> prefix v (c # cs)" using Suc.prems(1) [of 0] s by simp
  have "replace_all v p cs = take k cs @ replace_all v p (drop k cs)"
  proof (rule Suc.IH)
    fix j assume "j < k"
    then show "\<not> prefix v (drop j cs)" using Suc.prems(1) [of "Suc j"] s by simp
  next
    show "k \<le> length cs" using Suc.prems(2) s by simp
  qed
  with n0 s show ?case by simp
qed

lemma delimited_skip:
  "(\<And>j. j < k \<Longrightarrow> \<not> prefix v (drop j s)) \<Longrightarrow> k \<le> length s \<Longrightarrow> delimited v q s
   \<Longrightarrow> delimited v (if k = 0 then q else Some (s ! (k - 1))) (drop k s)"
proof (induction k arbitrary: s q)
  case 0
  then show ?case by simp
next
  case (Suc k)
  from Suc.prems(2) obtain c cs where s: "s = c # cs" by (cases s) auto
  have n0: "\<not> prefix v (c # cs)" using Suc.prems(1) [of 0] s by simp
  have d: "delimited v (Some c) cs" using Suc.prems(3) n0 s by simp
  have "delimited v (if k = 0 then Some c else Some (cs ! (k - 1))) (drop k cs)"
  proof (rule Suc.IH)
    fix j assume "j < k"
    then show "\<not> prefix v (drop j cs)" using Suc.prems(1) [of "Suc j"] s by simp
  next
    show "k \<le> length cs" using Suc.prems(2) s by simp
  next
    show "delimited v (Some c) cs" by (rule d)
  qed
  then show ?case using s by (cases k) simp_all
qed

lemma occurrence_after_nonword:
  assumes "delimited v q s" "v \<noteq> []" "prefix v (drop j s)" "0 < j"
    and "\<And>i. i < j \<Longrightarrow> \<not> prefix v (drop i s)"
  shows "j < length s \<and> \<not> is_word (s ! (j - 1))"
proof -
  have j: "j < length s"
  proof (rule ccontr)
    assume "\<not> j < length s"
    then have "drop j s = []" by simp
    with assms(2,3) show False by simp
  qed
  then have "delimited v (if j = 0 then q else Some (s ! (j - 1))) (drop j s)"
    using assms(1,5) by (intro delimited_skip) simp_all
  moreover obtain c cs where "drop j s = c # cs"
    using j by (cases "drop j s") simp_all
  ultimately show ?thesis using assms(3,4) j by (simp add: word_before_def)
qed

lemma no_occurrence_in_words:
  assumes "delimited v q s" "v \<noteq> []" "\<not> prefix v s"
    and "\<And>i. i < n \<Longrightarrow> i < length s \<Longrightarrow> is_word (s ! i)"
  shows "j \<le> n \<Longrightarrow> \<not> prefix v (drop j s)"
proof (induction j rule: less_induct)
  case (less j)
  show ?case
  proof (cases "j = 0")
    case True
    with assms(3) show ?thesis by simp
  next
    case False
    show ?thesis
    proof
      assume p: "prefix v (drop j s)"
      have "\<And>i. i < j \<Longrightarrow> \<not> prefix v (drop i s)"
        using less by simp
      from occurrence_after_nonword [OF assms(1,2) p _ this] False
      have "j < length s" "\<not> is_word (s ! (j - 1))" by simp_all
      moreover have "is_word (s ! (j - 1))"
        using assms(4) [of "j - 1"] False less.prems \<open>j < length s\<close> by simp
      ultimately show False by simp
    qed
  qed
qed

lemma word_after_replace_all:
  "\<not> prefix v t \<Longrightarrow> word_after (q, replace_all v p t) = word_after (q', t)"
  by (cases t) (simp_all add: word_after_def)

lemma token_at_length: "token_at l s \<Longrightarrow> length (label_name l) + 5 \<le> length s"
  by (simp add: token_at_def Let_def)

lemma token_at_replace_eq:
  assumes "\<And>j. j \<le> length (label_name l) + 5 \<Longrightarrow> \<not> prefix v (drop j s)"
  shows "token_at l (replace_all v p s) = token_at l s"
proof (cases "length (label_name l) + 5 \<le> length s")
  case True
  let ?n = "length (label_name l) + 5"
  have r: "replace_all v p s = take ?n s @ replace_all v p (drop ?n s)"
    using assms True by (intro replace_all_skip) simp_all
  have len: "length (take ?n s) = ?n" using True by simp
  have t: "take ?n (replace_all v p s) = take ?n s"
    using True by (subst r) (simp add: min_def)
  have d: "drop ?n (replace_all v p s) = replace_all v p (drop ?n s)"
    using True by (subst r) (simp add: min_def)
  have "length (replace_all v p s) = ?n + length (replace_all v p (drop ?n s))"
    using True by (subst r) (simp add: min_def)
  then have le: "?n \<le> length (replace_all v p s)"
    by simp
  have w: "word_after (None, replace_all v p (drop ?n s)) = word_after (None, drop ?n s)"
    using assms [of ?n] by (intro word_after_replace_all) simp
  show ?thesis
    unfolding token_at_split [OF refl True] token_at_split [OF refl le] t d w ..
next
  case False
  have "replace_all v p s = take (length s) s @ replace_all v p (drop (length s) s)"
    using assms False by (intro replace_all_skip) simp_all
  then show ?thesis by simp
qed

lemma no_occurrence_in_new_words:
  assumes "delimited v q s" "v \<noteq> []" "\<not> prefix v s"
    and "\<And>i. i < n \<Longrightarrow> i < length (replace_all v p s) \<Longrightarrow> is_word (replace_all v p s ! i)"
  shows "j \<le> n \<Longrightarrow> \<not> prefix v (drop j s)"
proof (induction j rule: less_induct)
  case (less j)
  show ?case
  proof (cases "j = 0")
    case True
    with assms(3) show ?thesis by simp
  next
    case False
    show ?thesis
    proof
      assume p: "prefix v (drop j s)"
      have b: "\<And>i. i < j \<Longrightarrow> \<not> prefix v (drop i s)"
        using less by simp
      from occurrence_after_nonword [OF assms(1,2) p _ b] False
      have j: "j < length s" and nw: "\<not> is_word (s ! (j - 1))" by simp_all
      have r: "replace_all v p s = take j s @ replace_all v p (drop j s)"
        using b j by (intro replace_all_skip) simp_all
      have "replace_all v p s ! (j - 1) = s ! (j - 1)"
          using j False by (subst r) (simp add: nth_append min_def)
      moreover have "length (replace_all v p s) = j + length (replace_all v p (drop j s))"
        using j by (subst r) (simp add: min_def)
      then have "j - 1 < length (replace_all v p s)"
        using False by simp
      ultimately have "is_word (s ! (j - 1))"
        using assms(4) [of "j - 1"] False less.prems by simp
      with nw show False by simp
    qed
  qed
qed

lemma token_len_replace:
  assumes "delimited v q s" "v \<noteq> []" "\<not> prefix v s"
  shows "token_len (replace_all v p s) = token_len s"
proof -
  have "token_at l (replace_all v p s) = token_at l s" for l
  proof (cases "token_at l s \<or> token_at l (replace_all v p s)")
    case False
    then show ?thesis by simp
  next
    case True
    let ?n = "length (label_name l) + 5"
    have "\<And>j. j \<le> ?n \<Longrightarrow> \<not> prefix v (drop j s)"
    proof -
      from True show "\<And>j. j \<le> ?n \<Longrightarrow> \<not> prefix v (drop j s)"
      proof
        assume "token_at l s"
        from token_at_words [OF this] have "\<And>i. i < ?n \<Longrightarrow> i < length s \<Longrightarrow> is_word (s ! i)"
          by (simp add: list_all_length)
        from no_occurrence_in_words [OF assms this]
        show "\<And>j. j \<le> ?n \<Longrightarrow> \<not> prefix v (drop j s)" by simp
      next
        assume "token_at l (replace_all v p s)"
        from token_at_words [OF this]
        have "\<And>i. i < ?n \<Longrightarrow> i < length (replace_all v p s) \<Longrightarrow> is_word (replace_all v p s ! i)"
          by (simp add: list_all_length)
        from no_occurrence_in_new_words [OF assms this]
        show "\<And>j. j \<le> ?n \<Longrightarrow> \<not> prefix v (drop j s)" by simp
      qed
    qed
    then show ?thesis by (rule token_at_replace_eq)
  qed
  then show ?thesis by (simp add: token_len_def)
qed

lemma pieces_literal_run:
  "(\<And>j q. j < length u \<Longrightarrow> exec_at r (q, drop j (u @ rest)) = None)
   \<Longrightarrow> pieces r q (u @ rest) = map Lit u @ pieces r (if u = [] then q else Some (last u)) rest"
proof (induction u arbitrary: q)
  case Nil
  show ?case by simp
next
  case (Cons c u)
  have e: "exec_at r (q, c # u @ rest) = None"
    using Cons.prems [of 0 q] by simp
  have "pieces r (Some c) (u @ rest)
      = map Lit u @ pieces r (if u = [] then Some c else Some (last u)) rest"
  proof (rule Cons.IH)
    fix j q' assume "j < length u"
    then show "exec_at r (q', drop j (u @ rest)) = None"
      using Cons.prems [of "Suc j" q'] by simp
  qed
  with e show ?case by simp
qed

lemma no_token_in_value:
  assumes "\<not> contains_placeholder v" "\<not> word_after (None, rest)" "j < length v"
  shows "\<not> token_at l (drop j (v @ rest))"
proof
  let ?n = "length (label_name l) + 5"
  let ?s = "drop j (v @ rest)"
  assume t: "token_at l ?s"
  have g: "placeholder_grammar (take ?n ?s)" using t by (rule token_at_grammar)
  have w: "list_all is_word (take ?n ?s)" using t by (rule token_at_words)
  have le: "?n \<le> length ?s" using t by (rule token_at_length)
  show False
  proof (cases "j + ?n \<le> length v")
    case True
    then have e: "take ?n ?s = take ?n (drop j v)" by simp
    have g': "placeholder_grammar (take ?n (drop j v))"
      using g unfolding e .
    have "sublist (take ?n (drop j v)) v"
    proof -
      have "v = take j v @ take ?n (drop j v) @ drop ?n (drop j v)"
        by (simp only: append_take_drop_id)
      then show ?thesis unfolding sublist_def by (intro exI)
    qed
    with g' have "\<exists>u. placeholder_grammar u \<and> sublist u v"
      by (intro exI [of _ "take ?n (drop j v)"] conjI)
    then show False
      using assms(1) by (simp add: contains_placeholder_iff)
  next
    case False
    then have i: "length v - j < ?n" using assms(3) by simp
    from le False assms(3) obtain c cs where r: "rest = c # cs" by (cases rest) auto
    have "?s ! (length v - j) = c"
      using assms(3) r by (simp add: nth_append)
    moreover have "is_word (take ?n ?s ! (length v - j))"
      using w i le by (simp add: list_all_length)
    moreover have "take ?n ?s ! (length v - j) = ?s ! (length v - j)"
      using i by (rule nth_take)
    ultimately have "is_word c" by (simp only:)
    with assms(2) r show False by (simp add: word_after_def)
  qed
qed

lemma substitute_Lits: "substitute f (map Lit u @ ps) = u @ substitute f ps"
  by (induction u) simp_all

lemma matched_Lits: "matched (map Lit u @ ps) = matched ps"
  by (induction u) simp_all

lemma word_before_fst: "word_before (q, s) = word_before (q, t)"
  by (simp add: word_before_def)

lemma token_len_not_word: "\<not> word_after (None, s) \<Longrightarrow> token_len s = None"
  unfolding token_len_None using token_at_word_after by blast

lemma exec_at_PH_Nil: "exec_at PLACEHOLDER_RE (q, []) = None"
  by (simp add: exec_at_PLACEHOLDER token_at_def)

lemma lockstep:
  fixes f f' :: "jsstring \<Rightarrow> jsstring"
  assumes v: "v \<noteq> []" and nc: "\<not> contains_placeholder v"
    and n: "n < 10000" and p: "p = placeholder_of lp n"
    and fp: "f' p = v" and ff: "\<And>t. t \<noteq> p \<Longrightarrow> f' t = f t"
  shows "delimited v q s \<Longrightarrow> p \<notin> set (matched (pieces PLACEHOLDER_RE q s))
     \<Longrightarrow> q' = q \<or> s = [] \<or> (\<not> word_after (None, s) \<and> \<not> prefix v s)
     \<Longrightarrow> substitute f' (pieces PLACEHOLDER_RE q' (replace_all v p s))
         = substitute f (pieces PLACEHOLDER_RE q s)"
proof (induction "length s" arbitrary: s q q' rule: less_induct)
  case less
  note IH = less.hyps and d = less.prems(1) and fresh = less.prems(2) and inv = less.prems(3)
  show ?case
  proof (cases s)
    case Nil
    then show ?thesis by (simp add: exec_at_PH_Nil)
  next
    case (Cons c cs)
    show ?thesis
    proof (cases "prefix v s")
      case True
      then obtain rest where s: "s = v @ rest" by (auto simp add: prefix_def)
      from v obtain c' v' where v': "v = c' # v'" by (cases v) auto
      have cs: "drop (length v - 1) cs = rest"
        using s v' Cons by simp
      from inv True Cons have q': "q' = q" by auto
      from d True Cons cs
      have nwb: "\<not> word_before (q, [])" and nwa: "\<not> word_after (None, rest)"
        and nadj: "\<not> prefix v rest" and d': "delimited v (Some (last v)) rest"
        by simp_all
      have r: "replace_all v p s = p @ replace_all v p rest"
        using True Cons cs by simp
      let ?new = "replace_all v p rest"
      let ?m = "length (label_name lp) + 5"
      have lenp: "length p = ?m" using n p by (simp add: length_placeholder_of)
      have wa: "\<not> word_after (None, ?new)"
        using nwa word_after_replace_all [OF nadj, of None p None] by simp
      have "token_at lp (p @ ?new)"
        unfolding p token_at_placeholder_of [OF n] using wa unfolding p .
      then have "token_len (p @ ?new) = Some ?m"
        unfolding token_len_Some by blast
      then have e: "exec_at PLACEHOLDER_RE (q, p @ ?new) = Some ?m"
        using nwb word_before_fst [of q "p @ ?new" "[]"] by (simp add: exec_at_PH)
      have new: "pieces PLACEHOLDER_RE q (p @ ?new)
          = Match p # pieces PLACEHOLDER_RE (Some ((p @ ?new) ! (?m - 1))) ?new"
        using pieces_Match [OF e] lenp by simp
      have none: "exec_at PLACEHOLDER_RE (q0, drop j (v @ rest)) = None" if "j < length v" for j q0
      proof -
        have "token_len (drop j (v @ rest)) = None"
          unfolding token_len_None using no_token_in_value [OF nc nwa that] by blast
        then show ?thesis by (simp add: exec_at_PH)
      qed
      have old: "pieces PLACEHOLDER_RE q (v @ rest)
          = map Lit v @ pieces PLACEHOLDER_RE (Some (last v)) rest"
        using pieces_literal_run [of v PLACEHOLDER_RE rest q] none v by simp
      have fresh': "p \<notin> set (matched (pieces PLACEHOLDER_RE (Some (last v)) rest))"
        using fresh unfolding s old matched_Lits .
      have "length rest < length s" using s v by simp
      moreover have "Some ((p @ ?new) ! (?m - 1)) = Some (last v) \<or> rest = []
          \<or> (\<not> word_after (None, rest) \<and> \<not> prefix v rest)"
        using nwa nadj by simp
      ultimately have "substitute f' (pieces PLACEHOLDER_RE (Some ((p @ ?new) ! (?m - 1))) ?new)
          = substitute f (pieces PLACEHOLDER_RE (Some (last v)) rest)"
        using d' fresh' by (intro IH)
      then show ?thesis
        unfolding q' r new unfolding s old substitute_Lits by (simp add: fp)
    next
      case False
      have r: "replace_all v p s = c # replace_all v p cs"
        using False Cons by simp
      have d': "delimited v (Some c) cs"
        using d False Cons by simp
      have tl: "token_len (replace_all v p s) = token_len s"
        using d v False by (rule token_len_replace)
      have e: "exec_at PLACEHOLDER_RE (q', replace_all v p s) = exec_at PLACEHOLDER_RE (q, s)"
      proof (cases "q' = q")
        case True
        then show ?thesis
          using tl word_before_fst [of q "replace_all v p s" s] by (simp add: exec_at_PH)
      next
        case False
        with inv Cons have "\<not> word_after (None, s)" by simp
        then have "token_len s = None" by (rule token_len_not_word)
        with tl show ?thesis by (simp add: exec_at_PH)
      qed
      show ?thesis
      proof (cases "exec_at PLACEHOLDER_RE (q, s)")
        case None
        have o: "pieces PLACEHOLDER_RE q s = Lit c # pieces PLACEHOLDER_RE (Some c) cs"
          using None Cons by simp
        have nw: "pieces PLACEHOLDER_RE q' (replace_all v p s)
            = Lit c # pieces PLACEHOLDER_RE (Some c) (replace_all v p cs)"
          using None e r by simp
        have "substitute f' (pieces PLACEHOLDER_RE (Some c) (replace_all v p cs))
            = substitute f (pieces PLACEHOLDER_RE (Some c) cs)"
          using d' fresh Cons unfolding o by (intro IH) simp_all
        then show ?thesis unfolding o nw by simp
      next
        case (Some m)
        then have nwb: "\<not> word_before (q, s)" and tm: "token_len s = Some m"
          by (simp_all add: exec_at_PH split: if_splits)
        from tm obtain l where l: "token_at l s" "m = length (label_name l) + 5"
          unfolding token_len_Some by blast
        have m0: "0 < m" using l(2) by simp
        have mle: "m \<le> length s" using l token_at_length by blast
        have w: "\<And>i. i < m \<Longrightarrow> i < length s \<Longrightarrow> is_word (s ! i)"
          using token_at_words [OF l(1)] l(2) by (simp add: list_all_length)
        have no: "\<And>j. j \<le> m \<Longrightarrow> \<not> prefix v (drop j s)"
          using no_occurrence_in_words [OF d v False w] by simp
        have rs: "replace_all v p s = take m s @ replace_all v p (drop m s)"
          using no mle by (intro replace_all_skip) simp_all
        have t: "take m (replace_all v p s) = take m s"
          using mle by (subst rs) (simp add: min_def)
        have dr: "drop m (replace_all v p s) = replace_all v p (drop m s)"
          using mle by (subst rs) (simp add: min_def)
        have nth: "replace_all v p s ! (m - 1) = s ! (m - 1)"
          using mle m0 by (subst rs) (simp add: nth_append min_def)
        have e': "exec_at PLACEHOLDER_RE (q', replace_all v p s) = Some m"
          using e Some by simp
        have o: "pieces PLACEHOLDER_RE q s
            = Match (take m s) # pieces PLACEHOLDER_RE (Some (s ! (m - 1))) (drop m s)"
          using pieces_Match [OF Some m0] .
        have nw: "pieces PLACEHOLDER_RE q' (replace_all v p s)
            = Match (take m s) # pieces PLACEHOLDER_RE (Some (s ! (m - 1))) (replace_all v p (drop m s))"
          using pieces_Match [OF e' m0] unfolding t dr nth .
        have tp: "take m s \<noteq> p" using fresh unfolding o by auto
        have d'': "delimited v (Some (s ! (m - 1))) (drop m s)"
          using delimited_skip [of m v s q] no mle d m0 by simp
        have "length (drop m s) < length s" using m0 Cons by simp
        then have "substitute f' (pieces PLACEHOLDER_RE (Some (s ! (m - 1))) (replace_all v p (drop m s)))
            = substitute f (pieces PLACEHOLDER_RE (Some (s ! (m - 1))) (drop m s))"
          using d'' fresh unfolding o by (intro IH) simp_all
        then show ?thesis unfolding o nw by (simp add: ff [OF tp])
      qed
    qed
  qed
qed

lemma redact_match_restores:
  assumes "v \<noteq> []" "v \<in> set (map snd (mapping st)) \<or> mint_ok st l v"
  shows "unredactOnce (modified (redact_match l st v)) (mapping (redact_match l st v))
         = unredactOnce (modified st) (mapping st)"
proof (cases "v \<in> set (map snd (mapping st))")
  case True
  then show ?thesis by (simp add: redact_match_def)
next
  case False
  with assms(2) have ok: "mint_ok st l v" by simp
  let ?p = "placeholder_of l (counters st l)"
  let ?f = "\<lambda>m. case map_of (mapping st) m of None \<Rightarrow> m | Some w \<Rightarrow> w"
  let ?f' = "\<lambda>m. case map_of (AList.update ?p v (mapping st)) m of None \<Rightarrow> m | Some w \<Rightarrow> w"
  have e: "redact_match l st v =
      \<lparr>modified = replace_all v ?p (modified st),
       mapping = AList.update ?p v (mapping st),
       counters = (counters st)(l := counters st l + 1)\<rparr>"
    using False assms(1) unfolding redact_match_def Let_def placeholder_of_def
    by (simp add: split_join)
  have "substitute ?f' (pieces PLACEHOLDER_RE None (replace_all v ?p (modified st)))
      = substitute ?f (pieces PLACEHOLDER_RE None (modified st))"
  proof (rule lockstep [where n = "counters st l" and lp = l])
    show "v \<noteq> []" by (rule assms(1))
    show "\<not> contains_placeholder v" using ok by (simp add: mint_ok_def)
    show "counters st l < 10000" using ok by (simp add: mint_ok_def)
    show "?p = placeholder_of l (counters st l)" by simp
    show "?f' ?p = v" by (simp add: update_conv')
    show "\<And>t. t \<noteq> ?p \<Longrightarrow> ?f' t = ?f t" by (simp add: update_conv')
    show "delimited v None (modified st)" using ok by (simp add: mint_ok_def)
    show "?p \<notin> set (matched (pieces PLACEHOLDER_RE None (modified st)))"
      using ok by (simp add: mint_ok_def)
    show "None = None \<or> modified st = []
        \<or> (\<not> word_after (None, modified st) \<and> \<not> prefix v (modified st))"
      by simp
  qed
  then show ?thesis unfolding e by (simp add: unredactOnce_def replace_def)
qed

lemma foldl_redact_match_restores:
  "matches_ok l st vs \<Longrightarrow> [] \<notin> set vs
   \<Longrightarrow> unredactOnce (modified (foldl (redact_match l) st vs)) (mapping (foldl (redact_match l) st vs))
       = unredactOnce (modified st) (mapping st)"
proof (induction vs arbitrary: st)
  case Nil
  show ?case by simp
next
  case (Cons v vs)
  have a: "unredactOnce (modified (redact_match l st v)) (mapping (redact_match l st v))
         = unredactOnce (modified st) (mapping st)"
    using Cons.prems by (intro redact_match_restores) auto
  have "unredactOnce (modified (foldl (redact_match l) (redact_match l st v) vs))
          (mapping (foldl (redact_match l) (redact_match l st v) vs))
      = unredactOnce (modified (redact_match l st v)) (mapping (redact_match l st v))"
    using Cons.prems by (intro Cons.IH) auto
  with a show ?case by simp
qed

lemma redact_label_restores:
  assumes "matches_ok l st (matchAll (modified st) (new_RegExp (PII_PATTERNS l)))"
  shows "unredactOnce (modified (redact_label PII_PATTERNS st l)) (mapping (redact_label PII_PATTERNS st l))
         = unredactOnce (modified st) (mapping st)"
proof -
  have "[] \<notin> set (matchAll (modified st) (new_RegExp (PII_PATTERNS l)))"
    unfolding matchAll_fresh using min_len_catalog [of l]
    by (simp add: PII_PATTERNS_def matched_nonempty)
  with assms show ?thesis
    unfolding redact_label_def Let_def by (intro foldl_redact_match_restores)
qed

lemma foldl_redact_label_restores:
  "labels_ok st ls
   \<Longrightarrow> unredactOnce (modified (foldl (redact_label PII_PATTERNS) st ls))
         (mapping (foldl (redact_label PII_PATTERNS) st ls))
       = unredactOnce (modified st) (mapping st)"
proof (induction ls arbitrary: st)
  case Nil
  show ?case by simp
next
  case (Cons l ls)
  have a: "unredactOnce (modified (redact_label PII_PATTERNS st l)) (mapping (redact_label PII_PATTERNS st l))
         = unredactOnce (modified st) (mapping st)"
    using Cons.prems by (intro redact_label_restores) simp
  have "unredactOnce (modified (foldl (redact_label PII_PATTERNS) (redact_label PII_PATTERNS st l) ls))
          (mapping (foldl (redact_label PII_PATTERNS) (redact_label PII_PATTERNS st l) ls))
      = unredactOnce (modified (redact_label PII_PATTERNS st l)) (mapping (redact_label PII_PATTERNS st l))"
    using Cons.prems by (intro Cons.IH) simp
  with a show ?case by simp
qed

section \<open>Tokens at word boundaries\<close>

lemma token_at_append_nonword:
  assumes "pre \<noteq> []" "\<not> is_word (last pre)"
  shows "token_at l (pre @ rest) = token_at l pre"
proof (cases "length (label_name l) + 5 < length pre")
  case True
  let ?n = "length (label_name l) + 5"
  have le: "?n \<le> length pre" "?n \<le> length (pre @ rest)" using True by simp_all
  have t: "take ?n (pre @ rest) = take ?n pre" using True by simp
  obtain c cs where d: "drop ?n pre = c # cs" using True by (cases "drop ?n pre") simp_all
  have w: "word_after (None, drop ?n (pre @ rest)) = word_after (None, drop ?n pre)"
    using True d by (simp add: word_after_def)
  show ?thesis
    unfolding token_at_split [OF refl le(1)] token_at_split [OF refl le(2)] t w ..
next
  case False
  let ?n = "length (label_name l) + 5"
  have i: "length pre - 1 < ?n" "length pre - 1 < length pre" using False assms(1) by simp_all
  have nw: "\<not> is_word (pre ! (length pre - 1))"
    using assms by (simp add: last_conv_nth)
  have a: "\<not> token_at l (pre @ rest)"
  proof
    assume t: "token_at l (pre @ rest)"
    have "list_all is_word (take ?n (pre @ rest))" using t by (rule token_at_words)
    moreover have "?n \<le> length (pre @ rest)" using t by (rule token_at_length)
    ultimately have "is_word (take ?n (pre @ rest) ! (length pre - 1))"
      using i by (simp add: list_all_length del: take_append)
    moreover have "take ?n (pre @ rest) ! (length pre - 1) = (pre @ rest) ! (length pre - 1)"
      using i(1) by (rule nth_take)
    moreover have "(pre @ rest) ! (length pre - 1) = pre ! (length pre - 1)"
      using i(2) by (simp add: nth_append)
    ultimately show False using nw by (simp only:)
  qed
  have b: "\<not> token_at l pre"
  proof
    assume t: "token_at l pre"
    have "list_all is_word (take ?n pre)" using t by (rule token_at_words)
    moreover have "?n \<le> length pre" using t by (rule token_at_length)
    ultimately have "is_word (take ?n pre ! (length pre - 1))"
      using i by (simp add: list_all_length)
    moreover have "take ?n pre ! (length pre - 1) = pre ! (length pre - 1)"
      using i(1) by (rule nth_take)
    ultimately show False using nw by (simp only:)
  qed
  from a b show ?thesis by simp
qed

lemma pieces_split_nonword:
  "pre \<noteq> [] \<Longrightarrow> \<not> is_word (last pre)
   \<Longrightarrow> pieces PLACEHOLDER_RE q (pre @ rest)
       = pieces PLACEHOLDER_RE q pre @ pieces PLACEHOLDER_RE (Some (last pre)) rest"
proof (induction "length pre" arbitrary: pre q rule: less_induct)
  case less
  note IH = less.hyps and ne = less.prems(1) and nw = less.prems(2)
  from ne obtain c cs where pre: "pre = c # cs" by (cases pre) auto
  have tl: "token_len (pre @ rest) = token_len pre"
    using token_at_append_nonword [OF ne nw] by (simp add: token_len_def)
  have e: "exec_at PLACEHOLDER_RE (q, pre @ rest) = exec_at PLACEHOLDER_RE (q, pre)"
    using tl word_before_fst [of q "pre @ rest" pre] by (simp add: exec_at_PH)
  show ?case
  proof (cases "exec_at PLACEHOLDER_RE (q, pre)")
    case None
    have o: "pieces PLACEHOLDER_RE q pre = Lit c # pieces PLACEHOLDER_RE (Some c) cs"
      using None pre by simp
    have n: "pieces PLACEHOLDER_RE q (pre @ rest)
        = Lit c # pieces PLACEHOLDER_RE (Some c) (cs @ rest)"
      using None e pre by simp
    show ?thesis
    proof (cases "cs = []")
      case True
      then show ?thesis unfolding o n using pre by (simp add: exec_at_PH_Nil)
    next
      case False
      have "pieces PLACEHOLDER_RE (Some c) (cs @ rest)
          = pieces PLACEHOLDER_RE (Some c) cs @ pieces PLACEHOLDER_RE (Some (last cs)) rest"
        using False nw pre by (intro IH) simp_all
      then show ?thesis unfolding o n using pre False by simp
    qed
  next
    case (Some m)
    then have tm: "token_len pre = Some m"
      by (simp add: exec_at_PH split: if_splits)
    then obtain l where l: "token_at l pre" "m = length (label_name l) + 5"
      unfolding token_len_Some by blast
    have m0: "0 < m" using l(2) by simp
    have mle: "m \<le> length pre" using l token_at_length by blast
    have w: "list_all is_word (take m pre)" using token_at_words [OF l(1)] l(2) by simp
    have mlt: "m < length pre"
    proof (rule ccontr)
      assume "\<not> m < length pre"
      with mle have "m = length pre" by simp
      with w have "is_word (pre ! (length pre - 1))"
        using ne by (simp add: list_all_length)
      with nw ne show False by (simp add: last_conv_nth)
    qed
    have e': "exec_at PLACEHOLDER_RE (q, pre @ rest) = Some m" using e Some by simp
    have o: "pieces PLACEHOLDER_RE q pre
        = Match (take m pre) # pieces PLACEHOLDER_RE (Some (pre ! (m - 1))) (drop m pre)"
      using pieces_Match [OF Some m0] .
    have n: "pieces PLACEHOLDER_RE q (pre @ rest)
        = Match (take m pre) # pieces PLACEHOLDER_RE (Some (pre ! (m - 1))) (drop m pre @ rest)"
    proof -
      have "take m (pre @ rest) = take m pre" using mle by simp
      moreover have "m - 1 < length pre" using mlt by simp
      then have "(pre @ rest) ! (m - 1) = pre ! (m - 1)"
        by (simp only: nth_append if_True)
      moreover have "drop m (pre @ rest) = drop m pre @ rest" using mle by simp
      ultimately show ?thesis using pieces_Match [OF e' m0] by (simp only:)
    qed
    have "pieces PLACEHOLDER_RE (Some (pre ! (m - 1))) (drop m pre @ rest)
        = pieces PLACEHOLDER_RE (Some (pre ! (m - 1))) (drop m pre)
          @ pieces PLACEHOLDER_RE (Some (last (drop m pre))) rest"
      using mlt m0 nw by (intro IH) simp_all
    then show ?thesis unfolding o n using mlt by simp
  qed
qed

lemma pieces_left_irrelevant:
  assumes "s = [] \<or> \<not> is_word (hd s)"
  shows "pieces PLACEHOLDER_RE q s = pieces PLACEHOLDER_RE q' s"
proof (cases s)
  case Nil
  then show ?thesis by (simp add: exec_at_PH_Nil)
next
  case (Cons c cs)
  with assms have "\<not> word_after (None, s)" by (simp add: word_after_def)
  then have "token_len s = None" by (rule token_len_not_word)
  then have "exec_at PLACEHOLDER_RE (q0, s) = None" for q0
    by (simp add: exec_at_PH)
  then show ?thesis using Cons by simp
qed

lemma grammar_token_at:
  assumes "placeholder_grammar t" "\<not> word_after (None, post)"
  shows "\<exists>l. token_at l (t @ post) \<and> length t = length (label_name l) + 5"
proof -
  from assms(1) obtain l where l: "length t = length (label_name l) + 5"
      "take (length (label_name l) + 1) t = label_name l @ utf16 ''_''"
      "list_all is_digit (drop (length (label_name l) + 1) t)"
    by (auto simp add: placeholder_grammar_def list_ex_iff)
  have "prefix (label_name l @ utf16 ''_'') (t @ post)"
    using l(2) by (metis prefix_append prefixI append_take_drop_id prefix_order.order_refl)
  moreover have "take 4 (drop (length (label_name l) + 1) (t @ post)) = drop (length (label_name l) + 1) t"
    using l(1) by simp
  moreover have "drop (length (label_name l) + 1 + 4) (t @ post) = post"
    using l(1) by simp
  ultimately have "token_at l (t @ post)"
    using l assms(2) by (simp add: token_at_def Let_def)
  with l(1) show ?thesis by blast
qed

lemma pieces_token:
  assumes "placeholder_grammar t" "\<not> word_before (q, [])" "\<not> word_after (None, post)"
  shows "pieces PLACEHOLDER_RE q (t @ post) = Match t # pieces PLACEHOLDER_RE (Some (last t)) post"
proof -
  from grammar_token_at [OF assms(1,3)] obtain l
    where l: "token_at l (t @ post)" "length t = length (label_name l) + 5" by blast
  then have "token_len (t @ post) = Some (length t)"
    unfolding token_len_Some by blast
  then have e: "exec_at PLACEHOLDER_RE (q, t @ post) = Some (length t)"
    using assms(2) word_before_fst [of q "t @ post" "[]"] by (simp add: exec_at_PH)
  have t0: "0 < length t" "t \<noteq> []" using l(2) by auto
  have "(t @ post) ! (length t - 1) = last t"
    using t0 by (simp add: nth_append last_conv_nth)
  with pieces_Match [OF e t0(1)] show ?thesis by simp
qed

lemma pieces_around_token:
  assumes "placeholder_grammar t" "pre = [] \<or> \<not> is_word (last pre)" "post = [] \<or> \<not> is_word (hd post)"
  shows "pieces PLACEHOLDER_RE None (pre @ t @ post)
         = pieces PLACEHOLDER_RE None pre @ Match t # pieces PLACEHOLDER_RE None post"
proof -
  let ?q = "if pre = [] then None else Some (last pre)"
  have nwb: "\<not> word_before (?q, [])" using assms(2) by (auto simp add: word_before_def)
  have nwa: "\<not> word_after (None, post)" using assms(3) by (cases post) (auto simp add: word_after_def)
  have a: "pieces PLACEHOLDER_RE None (pre @ t @ post)
      = pieces PLACEHOLDER_RE None pre @ pieces PLACEHOLDER_RE ?q (t @ post)"
  proof (cases "pre = []")
    case True
    then show ?thesis by (simp add: exec_at_PH_Nil)
  next
    case False
    with assms(2) show ?thesis by (simp add: pieces_split_nonword)
  qed
  have b: "pieces PLACEHOLDER_RE ?q (t @ post) = Match t # pieces PLACEHOLDER_RE (Some (last t)) post"
    using assms(1) nwb nwa by (rule pieces_token)
  have c: "pieces PLACEHOLDER_RE (Some (last t)) post = pieces PLACEHOLDER_RE None post"
    using assms(3) by (rule pieces_left_irrelevant)
  show ?thesis unfolding a b c ..
qed

lemma substitute_append: "substitute f (xs @ ys) = substitute f xs @ substitute f ys"
proof (induction xs)
  case Nil
  show ?case by simp
next
  case (Cons x xs)
  then show ?case by (cases x) simp_all
qed

lemma matched_append: "matched (xs @ ys) = matched xs @ matched ys"
proof (induction xs)
  case Nil
  show ?case by simp
next
  case (Cons x xs)
  then show ?case by (cases x) simp_all
qed

lemma unredactOnce_token:
  assumes "placeholder_grammar t" "pre = [] \<or> \<not> is_word (last pre)" "post = [] \<or> \<not> is_word (hd post)"
  shows "unredactOnce (pre @ t @ post) mp
         = unredactOnce pre mp @ (case map_of mp t of None \<Rightarrow> t | Some v \<Rightarrow> v) @ unredactOnce post mp"
  unfolding unredactOnce_def replace_def pieces_around_token [OF assms] substitute_append by simp

section \<open>Fresh placeholders and the values seen\<close>

lemma digit_unit_value: "d < 10 \<Longrightarrow> unat ((0x30 :: code_unit) + of_nat d - 0x30) = d"
proof -
  assume "d < 10"
  then have "d = 0 \<or> d = 1 \<or> d = 2 \<or> d = 3 \<or> d = 4 \<or> d = 5 \<or> d = 6 \<or> d = 7 \<or> d = 8 \<or> d = 9"
    by arith
  then show ?thesis by (elim disjE) simp_all
qed

lemma digits_value_snoc: "digits_value (s @ [d]) = 10 * digits_value s + unat (d - 0x30)"
  by (simp add: digits_value_def)

lemma digits_value_toString: "digits_value (toString n) = n"
proof (induction n rule: toString.induct)
  case (1 n)
  show ?case
  proof (cases "n < 10")
    case True
    then show ?thesis
      using digit_unit_value [of n]
      by (subst toString.simps) (simp add: digits_value_def)
  next
    case False
    have "digits_value (toString (n div 10) @ [0x30 + of_nat (n mod 10)])
        = 10 * (n div 10) + n mod 10"
      unfolding digits_value_snoc using 1 False digit_unit_value [of "n mod 10"] by simp
    with False show ?thesis by (subst toString.simps) simp
  qed
qed

lemma digits_value_zeros: "digits_value (replicate k 0x30 @ s) = digits_value s"
  by (induction k) (simp_all add: digits_value_def)

lemma digits_value_pad4: "digits_value (pad4 n) = n"
  by (simp add: pad4_def padStart_def digits_value_zeros digits_value_toString)

lemma placeholder_of_inj:
  assumes "placeholder_of l n = placeholder_of l' m"
  shows "l = l' \<and> n = m"
proof -
  have "hd (placeholder_of l n) = hd (placeholder_of l' m)" using assms by simp
  then have l: "l = l'"
    by (cases l; cases l') (simp_all add: placeholder_of_def label_names)
  with assms have "pad4 n = pad4 m" by (simp add: placeholder_of_def)
  then have "digits_value (pad4 n) = digits_value (pad4 m)" by simp
  with l show ?thesis by (simp add: digits_value_pad4)
qed

lemma update_fresh: "k \<notin> fst ` set al \<Longrightarrow> AList.update k v al = al @ [(k, v)]"
  by (induction al) auto

lemma keys_belowD:
  "keys_below st \<Longrightarrow> k \<in> fst ` set (mapping st)
   \<Longrightarrow> \<exists>l n. k = placeholder_of l n \<and> n < counters st l"
proof -
  assume kb: "keys_below st" and k: "k \<in> fst ` set (mapping st)"
  from k have "k \<in> set (map fst (mapping st))" by simp
  with kb have "\<exists>l\<in>set keys_PII_PATTERNS. \<exists>n\<in>set [0..<counters st l]. k = placeholder_of l n"
    unfolding keys_below_def list_all_iff list_ex_iff by blast
  then obtain l n where "k = placeholder_of l n" "n \<in> set [0..<counters st l]" by blast
  then show ?thesis by (intro exI [of _ l] exI [of _ n]) simp
qed

lemma keys_belowI:
  assumes "\<And>k. k \<in> fst ` set (mapping st) \<Longrightarrow> \<exists>l n. k = placeholder_of l n \<and> n < counters st l"
  shows "keys_below st"
  unfolding keys_below_def list_all_iff list_ex_iff
proof
  fix k assume "k \<in> set (map fst (mapping st))"
  then have "k \<in> fst ` set (mapping st)" by simp
  from assms [OF this] obtain l n where "k = placeholder_of l n" "n < counters st l" by blast
  then show "\<exists>l\<in>set keys_PII_PATTERNS. \<exists>n\<in>set [0..<counters st l]. k = placeholder_of l n"
    using label_in_keys [of l] by (intro bexI [of _ l] bexI [of _ n]) simp_all
qed

lemma fresh_placeholder:
  assumes "keys_below st"
  shows "placeholder_of l (counters st l) \<notin> fst ` set (mapping st)"
proof
  assume "placeholder_of l (counters st l) \<in> fst ` set (mapping st)"
  from keys_belowD [OF assms this] obtain l' n
    where "placeholder_of l (counters st l) = placeholder_of l' n" "n < counters st l'" by blast
  with placeholder_of_inj show False by blast
qed

lemma redact_match_appends:
  assumes "keys_below st"
  shows "mapping (redact_match l st v)
         = (if v \<in> set (map snd (mapping st)) then mapping st
            else mapping st @ [(placeholder_of l (counters st l), v)])"
    and "keys_below (redact_match l st v)"
proof -
  let ?p = "placeholder_of l (counters st l)"
  show m: "mapping (redact_match l st v)
         = (if v \<in> set (map snd (mapping st)) then mapping st else mapping st @ [(?p, v)])"
    using update_fresh [OF fresh_placeholder [OF assms], of l v]
    unfolding redact_match_def Let_def placeholder_of_def by simp
  show "keys_below (redact_match l st v)"
  proof (cases "v \<in> set (map snd (mapping st))")
    case True
    then show ?thesis using assms by (simp add: redact_match_def)
  next
    case False
    have c: "counters (redact_match l st v) = (counters st)(l := counters st l + 1)"
      using False unfolding redact_match_def Let_def by simp
    show ?thesis
    proof (rule keys_belowI)
      fix k assume "k \<in> fst ` set (mapping (redact_match l st v))"
      then consider "k \<in> fst ` set (mapping st)" | "k = ?p"
        unfolding m using False by auto
      then show "\<exists>l' n. k = placeholder_of l' n \<and> n < counters (redact_match l st v) l'"
      proof cases
        case 1
        from keys_belowD [OF assms 1] obtain l' n where "k = placeholder_of l' n" "n < counters st l'"
          by blast
        then show ?thesis unfolding c by (intro exI [of _ l'] exI [of _ n]) auto
      next
        case 2
        then show ?thesis unfolding c by (intro exI [of _ l] exI [of _ "counters st l"]) simp
      qed
    qed
  qed
qed

lemma remdups_append_dup: "v \<in> set ys \<Longrightarrow> remdups (xs @ v # ys) = remdups (xs @ ys)"
  by (induction xs) auto

lemma first_seen_snoc_old: "v \<in> set acc \<Longrightarrow> first_seen (acc @ v # vs) = first_seen (acc @ vs)"
  by (simp add: first_seen_def remdups_append_dup)

lemma first_seen_distinct: "distinct xs \<Longrightarrow> first_seen xs = xs"
  by (simp add: first_seen_def distinct_remdups_id)

lemma foldl_redact_match_values:
  "keys_below st \<Longrightarrow>
   first_seen (map snd (mapping (foldl (redact_match l) st vs)) @ ws)
     = first_seen (map snd (mapping st) @ vs @ ws)
   \<and> keys_below (foldl (redact_match l) st vs)"
proof (induction vs arbitrary: st)
  case Nil
  then show ?case by simp
next
  case (Cons v vs)
  note k = redact_match_appends [OF Cons.prems, of l v]
  from Cons.IH [OF k(2)]
  have a: "first_seen (map snd (mapping (foldl (redact_match l) (redact_match l st v) vs)) @ ws)
      = first_seen (map snd (mapping (redact_match l st v)) @ vs @ ws)"
    and b: "keys_below (foldl (redact_match l) (redact_match l st v) vs)" by simp_all
  have "first_seen (map snd (mapping (redact_match l st v)) @ vs @ ws)
      = first_seen (map snd (mapping st) @ v # vs @ ws)"
    unfolding k(1) by (simp add: first_seen_snoc_old)
  with a b show ?case by simp
qed

lemma foldl_redact_label_values:
  "keys_below st \<Longrightarrow>
   first_seen (map snd (mapping (foldl (redact_label pats) st ls)))
     = first_seen (map snd (mapping st) @ seen_matches pats st ls)
   \<and> keys_below (foldl (redact_label pats) st ls)"
proof (induction ls arbitrary: st)
  case Nil
  then show ?case by simp
next
  case (Cons l ls)
  let ?ms = "matchAll (modified st) (new_RegExp (pats l))"
  let ?st = "redact_label pats st l"
  have st: "?st = foldl (redact_match l) st ?ms" by (simp add: redact_label_def)
  from foldl_redact_match_values [OF Cons.prems, of l ?ms "seen_matches pats ?st ls"]
  have a: "first_seen (map snd (mapping ?st) @ seen_matches pats ?st ls)
      = first_seen (map snd (mapping st) @ ?ms @ seen_matches pats ?st ls)"
    and k: "keys_below ?st" unfolding st [symmetric] by simp_all
  from Cons.IH [OF k] a show ?case by simp
qed

lemma redactText_values:
  "map snd (mapping_of (redactText pats text))
   = first_seen (seen_matches pats \<lparr>modified = text, mapping = [], counters = (\<lambda>l. 1)\<rparr> keys_PII_PATTERNS)"
proof -
  let ?init = "\<lparr>modified = text, mapping = [], counters = (\<lambda>l. 1)\<rparr>"
  have k: "keys_below ?init" by (simp add: keys_below_def)
  have "first_seen (map snd (mapping (redact_run pats text)))
      = first_seen (map snd (mapping ?init) @ seen_matches pats ?init keys_PII_PATTERNS)"
    unfolding redact_run_def using foldl_redact_label_values [OF k] by blast
  moreover have "distinct (map snd (mapping (redact_run pats text)))"
    using redactText_distinct_values [of pats "text"] by (simp add: redactText_def Let_def)
  ultimately show ?thesis
    by (simp add: first_seen_distinct redactText_def Let_def)
qed

lemma redactText_keys_distinct: "distinct (map fst (mapping_of (redactText pats text)))"
proof -
  have m: "distinct (map fst (mapping st)) \<Longrightarrow> distinct (map fst (mapping (redact_match l st v)))" for l st v
    unfolding redact_match_def Let_def by (simp add: distinct_update)
  have f: "distinct (map fst (mapping st)) \<Longrightarrow> distinct (map fst (mapping (foldl (redact_match l) st vs)))"
    for l st vs
  proof (induction vs arbitrary: st)
    case Nil
    then show ?case by simp
  next
    case (Cons v vs)
    from Cons.IH [OF m [OF Cons.prems]] show ?case by simp
  qed
  have g: "distinct (map fst (mapping st)) \<Longrightarrow> distinct (map fst (mapping (foldl (redact_label pats) st ls)))"
    for st ls
  proof (induction ls arbitrary: st)
    case Nil
    then show ?case by simp
  next
    case (Cons l ls)
    have "distinct (map fst (mapping (redact_label pats st l)))"
      unfolding redact_label_def Let_def using Cons.prems by (rule f)
    from Cons.IH [OF this] show ?case by simp
  qed
  have "distinct (map fst (mapping (redact_run pats text)))"
    unfolding redact_run_def by (rule g) simp
  then show ?thesis by (simp add: redactText_def Let_def)
qed

section \<open>The streaming session\<close>

lemma stream_call_general:
  "length (snd (stream_call mp buf incoming)) \<le> 16
   \<and> fst (stream_call mp buf incoming)
       = take (length (unredactOnce (buf @ incoming) mp) - 16) (unredactOnce (buf @ incoming) mp)
   \<and> snd (stream_call mp buf incoming)
       = drop (length (unredactOnce (buf @ incoming) mp) - 16) (unredactOnce (buf @ incoming) mp)"
  by (simp add: stream_call_def unredactOnce_def Let_def TAIL_def MAX_PH_LEN_def)

section \<open>The claims\<close>

text \<open>
  C10. Whatever the mapping, the fragments a session has received so far and the
  incoming fragment (the empty one included), a call leaves a buffer of at most
  16 = \<open>MAX_PH_LEN - 1\<close> code units, and returns the buffer after replacement without
  its last 16 code units: nothing when that buffer has 16 code units or fewer.
\<close>

theorem stream_call_retains_tail:
  "(let buf = snd (stream_calls mp [] history);
        processed = unredactOnce (buf @ incoming) mp;
        (out, buf') = stream_call mp buf incoming
    in MAX_PH_LEN - 1 = 16 \<and> length buf' \<le> 16
       \<and> out = take (length processed - 16) processed
       \<and> buf' = drop (length processed - 16) processed
       \<and> (length processed \<le> 16 \<longrightarrow> out = []))"
  using stream_call_general [of mp "snd (stream_calls mp [] history)" incoming]
  by (simp add: Let_def split_beta MAX_PH_LEN_def)

theorem stream_call_retains_tail_witness:
  "(let mp = [(utf16 ''EMAIL_0001'', utf16 ''a@b.com'')];
        buf = snd (stream_calls mp [] [utf16 ''Dear EMAIL_00'']);
        processed = unredactOnce (buf @ utf16 ''01, your number was received'') mp;
        (out, buf') = stream_call mp buf (utf16 ''01, your number was received'')
    in buf = utf16 ''Dear EMAIL_00''
       \<and> processed = utf16 ''Dear a@b.com, your number was received''
       \<and> out = utf16 ''Dear a@b.com, your num''
       \<and> buf' = utf16 ''ber was received'' \<and> length buf' \<le> 16)"
  using stream_call_retains_tail [of "[(utf16 ''EMAIL_0001'', utf16 ''a@b.com'')]"
      "[utf16 ''Dear EMAIL_00'']" "utf16 ''01, your number was received''"]
  by code_simp

text \<open>
  C6. \<open>unredactOnce\<close> cuts the text, in one pass from left to right, into tokens of the
  placeholder grammar and the code units between them; the cut depends on the text alone,
  never on the mapping or on a value substituted earlier. Each token that is a key of the
  mapping is replaced by its value, each other token and every code unit between tokens is
  copied unchanged, and no input is an error. So a text none of whose tokens is a key
  comes back unchanged, as \<open>see EMAIL_0099 here\<close> does under the empty mapping; and a
  substituted value that is itself a placeholder (\<open>SSN_0002\<close> below) is not replaced
  again. No token is missed: wherever a string of the placeholder grammar stands in a
  text with no word character right before it and none right after it, it is one of the
  tokens found, the result has its value there (the token itself when it is not a key),
  inserted as it is, and the text before it and the text after it are restored as they
  would be alone.
\<close>

theorem unredactOnce_single_pass:
  "unredactOnce text mp
     = substitute (\<lambda>t. case map_of mp t of None \<Rightarrow> t | Some v \<Rightarrow> v) (pieces PLACEHOLDER_RE None text)
   \<and> substitute (\<lambda>t. t) (pieces PLACEHOLDER_RE None text) = text
   \<and> list_all placeholder_grammar (matched (pieces PLACEHOLDER_RE None text))
   \<and> (list_all (\<lambda>t. map_of mp t = None) (matched (pieces PLACEHOLDER_RE None text))
        \<longrightarrow> unredactOnce text mp = text)
   \<and> unredactOnce (utf16 ''see EMAIL_0099 here'') [] = utf16 ''see EMAIL_0099 here''
   \<and> unredactOnce (utf16 ''SSN_0001'') [(utf16 ''SSN_0001'', utf16 ''SSN_0002''), (utf16 ''SSN_0002'', utf16 ''x'')]
       = utf16 ''SSN_0002''
   \<and> (placeholder_grammar t \<and> (pre = [] \<or> \<not> is_word (last pre)) \<and> (post = [] \<or> \<not> is_word (hd post))
        \<longrightarrow> matched (pieces PLACEHOLDER_RE None (pre @ t @ post))
              = matched (pieces PLACEHOLDER_RE None pre) @ t # matched (pieces PLACEHOLDER_RE None post)
          \<and> unredactOnce (pre @ t @ post) mp
              = unredactOnce pre mp @ (case map_of mp t of None \<Rightarrow> t | Some v \<Rightarrow> v) @ unredactOnce post mp)"
proof -
  have a: "unredactOnce text mp
     = substitute (\<lambda>t. case map_of mp t of None \<Rightarrow> t | Some v \<Rightarrow> v) (pieces PLACEHOLDER_RE None text)"
    by (simp add: unredactOnce_def replace_def)
  have b: "substitute (\<lambda>t. t) (pieces PLACEHOLDER_RE None text) = text"
    by (rule substitute_id)
  have c: "list_all placeholder_grammar (matched (pieces PLACEHOLDER_RE None text))"
    unfolding list_all_iff using pieces_PLACEHOLDER_matched by blast
  have d: "list_all (\<lambda>t. map_of mp t = None) (matched (pieces PLACEHOLDER_RE None text))
        \<longrightarrow> unredactOnce text mp = text"
    unfolding list_all_iff using unredactOnce_absent [of "text" mp] by blast
  have e: "unredactOnce (utf16 ''see EMAIL_0099 here'') [] = utf16 ''see EMAIL_0099 here''"
    by code_simp
  have f: "unredactOnce (utf16 ''SSN_0001'') [(utf16 ''SSN_0001'', utf16 ''SSN_0002''), (utf16 ''SSN_0002'', utf16 ''x'')]
       = utf16 ''SSN_0002''"
    by code_simp
  have g: "placeholder_grammar t \<and> (pre = [] \<or> \<not> is_word (last pre)) \<and> (post = [] \<or> \<not> is_word (hd post))
        \<longrightarrow> matched (pieces PLACEHOLDER_RE None (pre @ t @ post))
              = matched (pieces PLACEHOLDER_RE None pre) @ t # matched (pieces PLACEHOLDER_RE None post)
          \<and> unredactOnce (pre @ t @ post) mp
              = unredactOnce pre mp @ (case map_of mp t of None \<Rightarrow> t | Some v \<Rightarrow> v) @ unredactOnce post mp"
  proof (intro impI conjI)
    assume h: "placeholder_grammar t \<and> (pre = [] \<or> \<not> is_word (last pre)) \<and> (post = [] \<or> \<not> is_word (hd post))"
    then have h1: "placeholder_grammar t" and h2: "pre = [] \<or> \<not> is_word (last pre)"
      and h3: "post = [] \<or> \<not> is_word (hd post)" by simp_all
    show "matched (pieces PLACEHOLDER_RE None (pre @ t @ post))
              = matched (pieces PLACEHOLDER_RE None pre) @ t # matched (pieces PLACEHOLDER_RE None post)"
      unfolding pieces_around_token [OF h1 h2 h3] matched_append by simp
    show "unredactOnce (pre @ t @ post) mp
              = unredactOnce pre mp @ (case map_of mp t of None \<Rightarrow> t | Some v \<Rightarrow> v) @ unredactOnce post mp"
      using h1 h2 h3 by (rule unredactOnce_token)
  qed
  from a b c d e f g show ?thesis by (intro conjI)
qed

theorem unredactOnce_single_pass_witness:
  "unredactOnce (utf16 ''to EMAIL_0001, not EMAIL_0002 or xSSN_0001'') [(utf16 ''EMAIL_0001'', utf16 ''a@b.com'')]
     = utf16 ''to a@b.com, not EMAIL_0002 or xSSN_0001''
   \<and> matched (pieces PLACEHOLDER_RE None (utf16 ''to EMAIL_0001, not EMAIL_0002 or xSSN_0001''))
     = [utf16 ''EMAIL_0001'', utf16 ''EMAIL_0002'']
   \<and> list_all (\<lambda>t. map_of [] t = None) (matched (pieces PLACEHOLDER_RE None (utf16 ''see EMAIL_0099 here'')))
   \<and> unredactOnce (utf16 ''see EMAIL_0099 here'') [] = utf16 ''see EMAIL_0099 here''
   \<and> placeholder_grammar (utf16 ''PHONE_NUMBER_0001'')
   \<and> \<not> is_word (last (utf16 ''call ('')) \<and> \<not> is_word (hd (utf16 ''), EMAIL_0001''))
   \<and> matched (pieces PLACEHOLDER_RE None (utf16 ''call ('' @ utf16 ''PHONE_NUMBER_0001'' @ utf16 ''), EMAIL_0001''))
     = [utf16 ''PHONE_NUMBER_0001'', utf16 ''EMAIL_0001'']
   \<and> unredactOnce (utf16 ''call ('' @ utf16 ''PHONE_NUMBER_0001'' @ utf16 ''), EMAIL_0001'')
        [(utf16 ''PHONE_NUMBER_0001'', utf16 ''555-123-4567'')]
     = utf16 ''call (555-123-4567), EMAIL_0001''"
proof -
  have m: "matched (pieces PLACEHOLDER_RE None (utf16 ''to EMAIL_0001, not EMAIL_0002 or xSSN_0001''))
     = [utf16 ''EMAIL_0001'', utf16 ''EMAIL_0002'']"
    by code_simp
  have s: "substitute (\<lambda>t. case map_of [(utf16 ''EMAIL_0001'', utf16 ''a@b.com'')] t of None \<Rightarrow> t | Some v \<Rightarrow> v)
       (pieces PLACEHOLDER_RE None (utf16 ''to EMAIL_0001, not EMAIL_0002 or xSSN_0001''))
     = utf16 ''to a@b.com, not EMAIL_0002 or xSSN_0001''"
    by code_simp
  have h: "list_all (\<lambda>t. map_of [] t = None) (matched (pieces PLACEHOLDER_RE None (utf16 ''see EMAIL_0099 here'')))"
    by code_simp
  have g: "placeholder_grammar (utf16 ''PHONE_NUMBER_0001'')"
    by (simp add: placeholder_grammar_def label_names keys_PII_PATTERNS_def utf16_def is_digit_def)
  have w1: "\<not> is_word (last (utf16 ''call (''))" by code_simp
  have w2: "\<not> is_word (hd (utf16 ''), EMAIL_0001''))" by code_simp
  have p1: "matched (pieces PLACEHOLDER_RE None (utf16 ''call (''))
            @ utf16 ''PHONE_NUMBER_0001'' # matched (pieces PLACEHOLDER_RE None (utf16 ''), EMAIL_0001''))
     = [utf16 ''PHONE_NUMBER_0001'', utf16 ''EMAIL_0001'']" by code_simp
  have p2: "unredactOnce (utf16 ''call ('') [(utf16 ''PHONE_NUMBER_0001'', utf16 ''555-123-4567'')]
       @ (case map_of [(utf16 ''PHONE_NUMBER_0001'', utf16 ''555-123-4567'')] (utf16 ''PHONE_NUMBER_0001'')
            of None \<Rightarrow> utf16 ''PHONE_NUMBER_0001'' | Some v \<Rightarrow> v)
       @ unredactOnce (utf16 ''), EMAIL_0001'') [(utf16 ''PHONE_NUMBER_0001'', utf16 ''555-123-4567'')]
     = utf16 ''call (555-123-4567), EMAIL_0001''" by code_simp
  show ?thesis
    using unredactOnce_single_pass [of "utf16 ''to EMAIL_0001, not EMAIL_0002 or xSSN_0001''"
        "[(utf16 ''EMAIL_0001'', utf16 ''a@b.com'')]"]
      unredactOnce_single_pass [of "utf16 ''see EMAIL_0099 here''" "[]"]
      unredactOnce_single_pass [of "[]" "[(utf16 ''PHONE_NUMBER_0001'', utf16 ''555-123-4567'')]"
        "utf16 ''PHONE_NUMBER_0001''" "utf16 ''call (''" "utf16 ''), EMAIL_0001''"]
      m s h g w1 w2 p1 p2
    by (simp only: simp_thms)
qed

text \<open>
  C7. A text no substring of which is in the placeholder grammar is returned unchanged
  by \<open>unredactOnce\<close>, whatever the mapping.
\<close>

theorem unredactOnce_no_placeholder:
  assumes "\<forall>t. placeholder_grammar t \<longrightarrow> \<not> sublist t text"
  shows "unredactOnce text mp = text"
proof (rule unredactOnce_absent)
  fix t assume "t \<in> set (matched (pieces PLACEHOLDER_RE None text))"
  then have "placeholder_grammar t \<and> sublist t text"
    by (rule pieces_PLACEHOLDER_matched)
  with assms show "map_of mp t = None" by blast
qed

theorem unredactOnce_no_placeholder_witness:
  "\<not> contains_placeholder (utf16 ''Ticket SSN-0001 for EMAIL_12'')
   \<and> unredactOnce (utf16 ''Ticket SSN-0001 for EMAIL_12'') [(utf16 ''SSN_0001'', utf16 ''123-45-6789'')]
       = utf16 ''Ticket SSN-0001 for EMAIL_12''"
proof -
  have c: "\<not> contains_placeholder (utf16 ''Ticket SSN-0001 for EMAIL_12'')"
    by (simp add: placeholder_grammar_def label_names keys_PII_PATTERNS_def utf16_def)
  then have h: "\<forall>t. placeholder_grammar t \<longrightarrow> \<not> sublist t (utf16 ''Ticket SSN-0001 for EMAIL_12'')"
    unfolding contains_placeholder_iff by blast
  from c unredactOnce_no_placeholder [OF h] show ?thesis by (rule conjI)
qed

text \<open>
  C5. In the mapping that \<open>redactText\<close> returns no two entries have the same value and
  no two the same placeholder, and its values are the values matched during the call,
  each once, in the order of their first sight: a matched value has exactly one
  placeholder, and a value that was not matched has none. A matched value that is
  already a value of the mapping mints no placeholder and moves no counter, and its
  occurrences were all replaced by the placeholder minted at its first sight.
  \<open>a@b.com called a@b.com\<close> gives one entry, and its placeholder twice in the redacted
  text.
\<close>

theorem redactText_dedup:
  "distinct (map snd (mapping_of (redactText pats text)))
   \<and> (list_ex (\<lambda>e. snd e = v) (mapping st) \<longrightarrow> redact_match l st v = st)
   \<and> redactText PII_PATTERNS (utf16 ''a@b.com called a@b.com'')
       = \<lparr>redactedText = utf16 ''EMAIL_0001 called EMAIL_0001'',
          mapping_of = [(utf16 ''EMAIL_0001'', utf16 ''a@b.com'')]\<rparr>
   \<and> map snd (mapping_of (redactText pats text))
       = first_seen (seen_matches pats \<lparr>modified = text, mapping = [], counters = (\<lambda>l. 1)\<rparr> keys_PII_PATTERNS)
   \<and> distinct (map fst (mapping_of (redactText pats text)))
   \<and> ((\<exists>!k. (k, v) \<in> set (mapping_of (redactText pats text)))
        = (v \<in> set (seen_matches pats \<lparr>modified = text, mapping = [], counters = (\<lambda>l. 1)\<rparr> keys_PII_PATTERNS)))"
proof -
  let ?m = "mapping_of (redactText pats text)"
  let ?seen = "seen_matches pats \<lparr>modified = text, mapping = [], counters = (\<lambda>l. 1)\<rparr> keys_PII_PATTERNS"
  have a: "distinct (map snd ?m)"
    by (rule redactText_distinct_values)
  have b: "list_ex (\<lambda>e. snd e = v) (mapping st) \<longrightarrow> redact_match l st v = st"
    by (auto simp add: redact_match_def list_ex_iff)
  have c: "redactText PII_PATTERNS (utf16 ''a@b.com called a@b.com'')
       = \<lparr>redactedText = utf16 ''EMAIL_0001 called EMAIL_0001'',
          mapping_of = [(utf16 ''EMAIL_0001'', utf16 ''a@b.com'')]\<rparr>"
    by code_simp
  have d: "map snd ?m = first_seen ?seen"
    by (rule redactText_values)
  have e: "distinct (map fst ?m)"
    by (rule redactText_keys_distinct)
  have f: "(\<exists>!k. (k, v) \<in> set ?m) = (v \<in> set ?seen)"
  proof
    assume "\<exists>!k. (k, v) \<in> set ?m"
    then obtain k where "(k, v) \<in> set ?m" by blast
    then have "v \<in> set (map snd ?m)" by force
    then show "v \<in> set ?seen" unfolding d by (simp add: first_seen_def)
  next
    assume "v \<in> set ?seen"
    then have "v \<in> set (map snd ?m)" unfolding d by (simp add: first_seen_def)
    then obtain k where k: "(k, v) \<in> set ?m" by auto
    have "k' = k" if "(k', v) \<in> set ?m" for k'
    proof -
      from a have "inj_on snd (set ?m)" by (simp add: distinct_map)
      from inj_onD [OF this _ that k] show ?thesis by simp
    qed
    with k show "\<exists>!k. (k, v) \<in> set ?m" by blast
  qed
  from a b c d e f show ?thesis by (intro conjI)
qed

theorem redactText_dedup_witness:
  "redactText PII_PATTERNS (utf16 ''a@b.com, a@b.com, c@d.org'')
       = \<lparr>redactedText = utf16 ''EMAIL_0001, EMAIL_0001, EMAIL_0002'',
          mapping_of = [(utf16 ''EMAIL_0001'', utf16 ''a@b.com''), (utf16 ''EMAIL_0002'', utf16 ''c@d.org'')]\<rparr>
   \<and> seen_matches PII_PATTERNS \<lparr>modified = utf16 ''a@b.com, a@b.com, c@d.org'', mapping = [], counters = (\<lambda>l. 1)\<rparr>
         keys_PII_PATTERNS
       = [utf16 ''a@b.com'', utf16 ''a@b.com'', utf16 ''c@d.org'']
   \<and> first_seen (seen_matches PII_PATTERNS
         \<lparr>modified = utf16 ''a@b.com, a@b.com, c@d.org'', mapping = [], counters = (\<lambda>l. 1)\<rparr> keys_PII_PATTERNS)
       = [utf16 ''a@b.com'', utf16 ''c@d.org'']
   \<and> distinct (map snd (mapping_of (redactText PII_PATTERNS (utf16 ''a@b.com, a@b.com, c@d.org''))))
   \<and> distinct (map fst (mapping_of (redactText PII_PATTERNS (utf16 ''a@b.com, a@b.com, c@d.org''))))
   \<and> (\<exists>!k. (k, utf16 ''c@d.org'') \<in> set (mapping_of (redactText PII_PATTERNS (utf16 ''a@b.com, a@b.com, c@d.org''))))
   \<and> list_ex (\<lambda>e. snd e = utf16 ''a@b.com'')
         (mapping \<lparr>modified = utf16 ''EMAIL_0001'',
                   mapping = [(utf16 ''EMAIL_0001'', utf16 ''a@b.com'')], counters = (\<lambda>l. 2)\<rparr>)
   \<and> redact_match EMAIL \<lparr>modified = utf16 ''EMAIL_0001'',
                   mapping = [(utf16 ''EMAIL_0001'', utf16 ''a@b.com'')], counters = (\<lambda>l. 2)\<rparr>
         (utf16 ''a@b.com'')
       = \<lparr>modified = utf16 ''EMAIL_0001'',
                   mapping = [(utf16 ''EMAIL_0001'', utf16 ''a@b.com'')], counters = (\<lambda>l. 2)\<rparr>"
proof -
  have e: "redactText PII_PATTERNS (utf16 ''a@b.com, a@b.com, c@d.org'')
       = \<lparr>redactedText = utf16 ''EMAIL_0001, EMAIL_0001, EMAIL_0002'',
          mapping_of = [(utf16 ''EMAIL_0001'', utf16 ''a@b.com''), (utf16 ''EMAIL_0002'', utf16 ''c@d.org'')]\<rparr>"
    by code_simp
  have s: "seen_matches PII_PATTERNS \<lparr>modified = utf16 ''a@b.com, a@b.com, c@d.org'', mapping = [], counters = (\<lambda>l. 1)\<rparr>
         keys_PII_PATTERNS
       = [utf16 ''a@b.com'', utf16 ''a@b.com'', utf16 ''c@d.org'']"
    by code_simp
  have h: "list_ex (\<lambda>e. snd e = utf16 ''a@b.com'')
         (mapping \<lparr>modified = utf16 ''EMAIL_0001'',
                   mapping = [(utf16 ''EMAIL_0001'', utf16 ''a@b.com'')], counters = (\<lambda>l. 2)\<rparr>)"
    by simp
  let ?st = "\<lparr>modified = utf16 ''EMAIL_0001'',
          mapping = [(utf16 ''EMAIL_0001'', utf16 ''a@b.com'')], counters = (\<lambda>l. 2)\<rparr>"
  note first = redactText_dedup [of PII_PATTERNS "utf16 ''a@b.com, a@b.com, c@d.org''" "utf16 ''a@b.com''" ?st EMAIL]
  note second = redactText_dedup [of PII_PATTERNS "utf16 ''a@b.com, a@b.com, c@d.org''" "utf16 ''c@d.org''" ?st EMAIL]
  have fs: "first_seen (seen_matches PII_PATTERNS
         \<lparr>modified = utf16 ''a@b.com, a@b.com, c@d.org'', mapping = [], counters = (\<lambda>l. 1)\<rparr> keys_PII_PATTERNS)
       = [utf16 ''a@b.com'', utf16 ''c@d.org'']"
    using first unfolding e by simp
  have mem: "utf16 ''c@d.org'' \<in> set (seen_matches PII_PATTERNS
         \<lparr>modified = utf16 ''a@b.com, a@b.com, c@d.org'', mapping = [], counters = (\<lambda>l. 1)\<rparr> keys_PII_PATTERNS)"
    unfolding s by simp
  from second mem
  have u: "\<exists>!k. (k, utf16 ''c@d.org'') \<in> set (mapping_of (redactText PII_PATTERNS (utf16 ''a@b.com, a@b.com, c@d.org'')))"
    by blast
  from first h have r: "redact_match EMAIL ?st (utf16 ''a@b.com'') = ?st" by blast
  from first have d1: "distinct (map snd (mapping_of (redactText PII_PATTERNS (utf16 ''a@b.com, a@b.com, c@d.org''))))"
    by blast
  from first have d2: "distinct (map fst (mapping_of (redactText PII_PATTERNS (utf16 ''a@b.com, a@b.com, c@d.org''))))"
    by blast
  from e s fs d1 d2 u h r show ?thesis by (intro conjI)
qed

text \<open>
  C8. \<open>redactText\<close> is a function of its input text: the only state outside the call
  that it reads are the shared objects of \<open>PII_PATTERNS\<close>, of which it reads the
  patterns and never \<open>lastIndex\<close>, and it writes none. Two calls on one text, whatever
  happened to the shared objects in between, run through the same loop states (working
  text, mapping, counters) and return the same redacted text and mapping.
\<close>

theorem redactText_deterministic:
  assumes "\<forall>l. source (pats l) = source (pats' l)"
  shows "redact_run pats text = redact_run pats' text
         \<and> redactText pats text = redactText pats' text"
proof -
  have "redact_run pats text = redact_run pats' text"
    unfolding redact_run_def using assms by (intro foldl_redact_label_lastIndex) simp
  then show ?thesis by (simp add: redactText_def)
qed

theorem redactText_deterministic_witness:
  "(\<forall>l. source (PII_PATTERNS l) = source (\<lparr>source = pattern_of l, lastIndex = 7\<rparr>))
   \<and> redactText PII_PATTERNS (utf16 ''SSN 123-45-6789'')
       = redactText (\<lambda>l. \<lparr>source = pattern_of l, lastIndex = 7\<rparr>) (utf16 ''SSN 123-45-6789'')
   \<and> redactText PII_PATTERNS (utf16 ''SSN 123-45-6789'')
       = \<lparr>redactedText = utf16 ''SSN SSN_0001'',
          mapping_of = [(utf16 ''SSN_0001'', utf16 ''123-45-6789'')]\<rparr>"
proof -
  have h: "\<forall>l. source (PII_PATTERNS l) = source (\<lparr>source = pattern_of l, lastIndex = 7\<rparr>)"
    by (simp add: PII_PATTERNS_def)
  have e: "redactText PII_PATTERNS (utf16 ''SSN 123-45-6789'')
       = \<lparr>redactedText = utf16 ''SSN SSN_0001'',
          mapping_of = [(utf16 ''SSN_0001'', utf16 ''123-45-6789'')]\<rparr>"
    by code_simp
  from redactText_deterministic [OF h, of "utf16 ''SSN 123-45-6789''"] h e
  show ?thesis by (simp only: simp_thms)
qed

text \<open>
  C9. The scenario of the specification: three entries, in the order in which the
  catalog is run (SSN, EMAIL, PHONE_NUMBER), each with counter 1; outside its three
  placeholders the redacted text has no digit and no at-sign.
\<close>

theorem redactText_scenario:
  "redactText PII_PATTERNS (utf16 ''Contact 555-123-4567 or a@b.com, SSN 123-45-6789'')
     = \<lparr>redactedText = utf16 ''Contact PHONE_NUMBER_0001 or EMAIL_0001, SSN SSN_0001'',
        mapping_of = [(utf16 ''SSN_0001'', utf16 ''123-45-6789''),
                      (utf16 ''EMAIL_0001'', utf16 ''a@b.com''),
                      (utf16 ''PHONE_NUMBER_0001'', utf16 ''555-123-4567'')]\<rparr>
   \<and> length (mapping_of (redactText PII_PATTERNS
         (utf16 ''Contact 555-123-4567 or a@b.com, SSN 123-45-6789''))) = 3
   \<and> matched (pieces PLACEHOLDER_RE None
         (utf16 ''Contact PHONE_NUMBER_0001 or EMAIL_0001, SSN SSN_0001''))
       = [utf16 ''PHONE_NUMBER_0001'', utf16 ''EMAIL_0001'', utf16 ''SSN_0001'']
   \<and> list_all (\<lambda>c. \<not> is_digit c \<and> c \<noteq> 0x40)
         (literal_units (pieces PLACEHOLDER_RE None
            (utf16 ''Contact PHONE_NUMBER_0001 or EMAIL_0001, SSN SSN_0001'')))"
proof -
  have a: "redactText PII_PATTERNS (utf16 ''Contact 555-123-4567 or a@b.com, SSN 123-45-6789'')
     = \<lparr>redactedText = utf16 ''Contact PHONE_NUMBER_0001 or EMAIL_0001, SSN SSN_0001'',
        mapping_of = [(utf16 ''SSN_0001'', utf16 ''123-45-6789''),
                      (utf16 ''EMAIL_0001'', utf16 ''a@b.com''),
                      (utf16 ''PHONE_NUMBER_0001'', utf16 ''555-123-4567'')]\<rparr>"
    by code_simp
  have b: "matched (pieces PLACEHOLDER_RE None
         (utf16 ''Contact PHONE_NUMBER_0001 or EMAIL_0001, SSN SSN_0001''))
       = [utf16 ''PHONE_NUMBER_0001'', utf16 ''EMAIL_0001'', utf16 ''SSN_0001'']"
    by code_simp
  have c: "list_all (\<lambda>c. \<not> is_digit c \<and> c \<noteq> 0x40)
         (literal_units (pieces PLACEHOLDER_RE None
            (utf16 ''Contact PHONE_NUMBER_0001 or EMAIL_0001, SSN SSN_0001'')))"
    by code_simp
  from a b c show ?thesis by simp
qed

text \<open>
  C1. The claim fails on the code: a call with the empty fragment is an ordinary call,
  it keeps the last 16 code units of the buffer as every call does, so the session never
  returns them. With the empty mapping the fragments \<open>hello\<close> and then the empty
  fragment return nothing at all, where \<open>unredactOnce\<close> returns \<open>hello\<close>.
\<close>

theorem stream_flush_keeps_tail:
  "makeStreamUnredactor [] [utf16 ''hello'', []] = [[], []]
   \<and> concat (makeStreamUnredactor [] [utf16 ''hello'', []]) = []
   \<and> unredactOnce (utf16 ''hello'') [] = utf16 ''hello''"
  by code_simp

text \<open>
  C2. The claim fails on the code, by the defect of C1: for the key \<open>EMAIL_0001\<close> with
  value \<open>a@b.com\<close>, at every split offset from 0 to 10 the two fragments and the empty
  fragment return nothing, so the value is never shown; one-shot restoration of the same
  token gives the value.
\<close>

theorem stream_split_token_never_shown:
  "list_all (\<lambda>i. makeStreamUnredactor [(utf16 ''EMAIL_0001'', utf16 ''a@b.com'')]
                     [take i (utf16 ''EMAIL_0001''), drop i (utf16 ''EMAIL_0001''), []]
                   = [[], [], []]) [0..<11]
   \<and> unredactOnce (utf16 ''EMAIL_0001'') [(utf16 ''EMAIL_0001'', utf16 ''a@b.com'')] = utf16 ''a@b.com''"
  by code_simp

text \<open>
  C4. The claim fails on the code once a label's counter passes 9999: \<open>pad4\<close> pads to
  at least four digits and cuts nothing. On the input \<open>many_ssns\<close> (ten thousand
  different values of the SSN shape) the mapping that \<open>redactText\<close> returns has the key
  \<open>SSN_10000\<close>, which is not in the grammar \<open>LABEL_\d{4}\<close> and which
  \<open>unredactOnce\<close> does not restore.
\<close>

theorem redactText_mints_five_digits:
  "utf16 ''SSN_10000'' \<in> fst ` set (mapping_of (redactText PII_PATTERNS many_ssns))
   \<and> \<not> placeholder_grammar (utf16 ''SSN_10000'')
   \<and> unredactOnce (utf16 ''SSN_10000'') [(utf16 ''SSN_10000'', utf16 ''000-00-9999'')] = utf16 ''SSN_10000''"
proof -
  let ?init = "\<lparr>modified = many_ssns, mapping = [], counters = (\<lambda>l. 1)\<rparr>"
  let ?st = "redact_label PII_PATTERNS ?init SSN"
  let ?ms = "map ssn_value (List.n_lists 4 (utf16 ''0123456789''))"
  have ms: "matchAll (modified ?init) (new_RegExp (PII_PATTERNS SSN)) = ?ms"
    by (simp only: redact_state.simps many_ssns_matches)
  have "set ?ms \<inter> snd ` set (mapping ?init) = {}"
    by simp
  moreover have "9999 < length ?ms"
    unfolding many_ssns_count by simp
  ultimately have "placeholder_of SSN (counters ?init SSN + 9999)
      \<in> fst ` set (mapping (foldl (redact_match SSN) ?init ?ms))"
    using many_ssns_distinct by (intro foldl_redact_match_mints)
  then have "placeholder_of SSN (counters ?init SSN + 9999) \<in> fst ` set (mapping ?st)"
    unfolding redact_label_def Let_def ms .
  then have k: "utf16 ''SSN_10000'' \<in> fst ` set (mapping ?st)"
    by (simp add: pad4_10000)
  have "fst ` set (mapping ?st) \<subseteq> fst ` set (mapping (redact_label PII_PATTERNS ?st EMAIL))"
    by (rule redact_label_keys)
  also have "\<dots> \<subseteq> fst ` set (mapping (redact_label PII_PATTERNS (redact_label PII_PATTERNS ?st EMAIL) PHONE_NUMBER))"
    by (rule redact_label_keys)
  finally have "utf16 ''SSN_10000'' \<in> fst ` set (mapping (redact_run PII_PATTERNS many_ssns))"
    using k by (auto simp add: redact_run_def keys_PII_PATTERNS_def)
  then have a: "utf16 ''SSN_10000'' \<in> fst ` set (mapping_of (redactText PII_PATTERNS many_ssns))"
    by (simp add: redactText_def Let_def)
  have b: "\<not> placeholder_grammar (utf16 ''SSN_10000'')"
    by (simp add: placeholder_grammar_def label_names keys_PII_PATTERNS_def utf16_def)
  have c: "unredactOnce (utf16 ''SSN_10000'') [(utf16 ''SSN_10000'', utf16 ''000-00-9999'')] = utf16 ''SSN_10000''"
    by code_simp
  from a b c show ?thesis by (intro conjI)
qed

text \<open>
  C3. The claim fails on the code as stated: in \<open>123-45-6789 x123-45-67890\<close> the value
  \<open>123-45-6789\<close> occurs a second time inside a longer word, where the literal replacement
  of \<open>redactText\<close> rewrites it too, but where \<open>unredactOnce\<close> finds no token, since
  its pattern asks for word boundaries. As amended: restoration inverts redaction on
  every text that is \<open>restorable\<close>, that is, on which every value that \<open>redactText\<close>
  records contains no substring of the placeholder grammar, gets a placeholder with a counter
  below 10000 that is not already a token of the working text, and is replaced only at
  occurrences that stand between non-word code units (or the ends of the text), none
  directly followed by another. A text in which the catalog finds nothing is
  \<open>restorable\<close>.
\<close>

theorem redact_round_trip:
  assumes "restorable text"
  shows "unredactOnce (redactedText (redactText PII_PATTERNS text))
           (mapping_of (redactText PII_PATTERNS text)) = text"
proof -
  let ?init = "\<lparr>modified = text, mapping = [], counters = (\<lambda>l. 1)\<rparr>"
  have "unredactOnce (modified (redact_run PII_PATTERNS text)) (mapping (redact_run PII_PATTERNS text))
      = unredactOnce (modified ?init) (mapping ?init)"
    unfolding redact_run_def using assms unfolding restorable_def
    by (rule foldl_redact_label_restores)
  also have "\<dots> = text"
    by (simp add: unredactOnce_absent)
  finally show ?thesis by (simp add: redactText_def Let_def)
qed

theorem redact_round_trip_witness:
  "restorable (utf16 ''a@b.com, SSN 123-45-6789'')
   \<and> unredactOnce (redactedText (redactText PII_PATTERNS (utf16 ''a@b.com, SSN 123-45-6789'')))
           (mapping_of (redactText PII_PATTERNS (utf16 ''a@b.com, SSN 123-45-6789'')))
       = utf16 ''a@b.com, SSN 123-45-6789''"
proof -
  have h: "restorable (utf16 ''a@b.com, SSN 123-45-6789'')"
    by code_simp
  from h redact_round_trip [OF h] show ?thesis by (rule conjI)
qed

theorem redact_round_trip_counterexample:
  "unredactOnce (redactedText (redactText PII_PATTERNS (utf16 ''123-45-6789 x123-45-67890'')))
           (mapping_of (redactText PII_PATTERNS (utf16 ''123-45-6789 x123-45-67890'')))
     \<noteq> utf16 ''123-45-6789 x123-45-67890''"
  by code_simp

end
